theory Spec2Isabelle
  imports Complex_Main "HOL-Library.Sublist" "HOL-Library.Char_ord" "HOL-Library.List_Lexorder"
begin

section \<open>JavaScript values and strings\<close>

text \<open>
  The three libraries (\<^verbatim>\<open>lib/fetcher.js\<close>, \<^verbatim>\<open>lib/schema.js\<close>, \<^verbatim>\<open>lib/generator.js\<close>)
  work on decoded JSON. A value is a tagged union; \<open>JUndefined\<close> is JavaScript's
  \<^verbatim>\<open>undefined\<close>, which a caller can pass even though JSON cannot hold it. A number is
  the exact value of the decoded double, a rational, so that \<^verbatim>\<open>Number.isInteger\<close> is
  "has no fractional part". An object is the list of its own enumerable properties in
  the order in which \<^verbatim>\<open>for (const key in obj)\<close> visits them (its keys are pairwise
  different); inside such a loop \<^verbatim>\<open>obj[key]\<close> is the value paired with the visited
  key. Strings are lists of characters; the strings the code compares, searches and
  sorts are ASCII.
\<close>

datatype json =
    JNull
  | JUndefined
  | JBool bool
  | JNum rat
  | JStr string
  | JArr "json list"
  | JObj "(string \<times> json) list"

fun typeof :: "json \<Rightarrow> string" where
  "typeof JNull = ''object''"
| "typeof JUndefined = ''undefined''"
| "typeof (JBool b) = ''boolean''"
| "typeof (JNum q) = ''number''"
| "typeof (JStr s) = ''string''"
| "typeof (JArr xs) = ''object''"
| "typeof (JObj kvs) = ''object''"

fun isArray :: "json \<Rightarrow> bool" where
  "isArray (JArr xs) = True"
| "isArray v = False"

fun isInteger :: "json \<Rightarrow> bool" where
  "isInteger (JNum q) = (of_int \<lfloor>q\<rfloor> = q)"
| "isInteger v = False"

text \<open>Decimal rendering of an array index, as \<^verbatim>\<open>for ... in\<close> names the elements of an array.\<close>

fun string_of_nat :: "nat \<Rightarrow> string" where
  "string_of_nat n =
     (if n < 10 then [char_of (48 + n)]
      else string_of_nat (n div 10) @ [char_of (48 + n mod 10)])"

declare string_of_nat.simps [simp del]

text \<open>
  The properties a \<^verbatim>\<open>for ... in\<close> loop visits: the members of an object, the indexed
  elements of an array, nothing for the other values the callers let through.
\<close>

fun entries :: "json \<Rightarrow> (string \<times> json) list" where
  "entries (JObj kvs) = kvs"
| "entries (JArr xs) = zip (map string_of_nat [0..<length xs]) xs"
| "entries v = []"

text \<open>\<^verbatim>\<open>k in value\<close> for a decoded JSON object and the key names used below.\<close>

definition has_key :: "string \<Rightarrow> json \<Rightarrow> bool" where
  "has_key k v = (k \<in> set (map fst (entries v)))"

text \<open>\<^verbatim>\<open>s.includes(sub)\<close>: \<open>sub\<close> occurs in \<open>s\<close> as a contiguous substring.\<close>

definition str_includes :: "string \<Rightarrow> string \<Rightarrow> bool" where
  "str_includes s sub = sublist sub s"

text \<open>
  \<^verbatim>\<open>toLowerCase\<close> on header names, which are ASCII: the letters A to Z move to a to z,
  every other character stays.
\<close>

definition lower_char :: "char \<Rightarrow> char" where
  "lower_char c =
     (if CHR ''A'' \<le> c \<and> c \<le> CHR ''Z'' then char_of (of_char c + (32::nat)) else c)"

definition toLowerCase :: "string \<Rightarrow> string" where
  "toLowerCase s = map lower_char s"

section \<open>generator.js\<close>

definition SENSITIVE_HEADERS :: "string list" where
  "SENSITIVE_HEADERS =
     [''authorization'', ''api-key'', ''api_key'', ''apikey'', ''x-api-key'',
      ''x-auth-token'', ''token'', ''secret'', ''password'', ''bearer'']"

definition isSensitive :: "string \<Rightarrow> bool" where
  "isSensitive key =
     (let lowerKey = toLowerCase key
      in list_ex (\<lambda>sensitive. str_includes lowerKey sensitive) SENSITIVE_HEADERS)"

definition masked_literal :: "json" where
  "masked_literal = JStr ''<masked>''"

text \<open>
  \<^verbatim>\<open>maskSensitiveHeaders\<close> builds its result by assignments \<^verbatim>\<open>masked[key] = ...\<close> to an
  object that starts as \<^verbatim>\<open>{}\<close>. Such an object has its own properties, in insertion
  order, and a prototype: \<open>None\<close> is \<^verbatim>\<open>Object.prototype\<close>, \<open>Some v\<close> a value an
  assignment has installed. An assignment to a key other than \<^verbatim>\<open>__proto__\<close> writes the
  own property. An assignment to \<^verbatim>\<open>__proto__\<close> reaches the accessor that
  \<^verbatim>\<open>Object.prototype\<close> defines, unless an own property or a property of the installed
  prototype of that name, or a \<^verbatim>\<open>null\<close> prototype, stands before it: the accessor
  installs an object or \<^verbatim>\<open>null\<close> as the prototype, ignores any other value, and
  writes no own property.
\<close>

record js_object =
  own_props :: "(string \<times> json) list"
  prototype :: "json option"

definition empty_object :: js_object where
  "empty_object = \<lparr>own_props = [], prototype = None\<rparr>"

definition set_own :: "string \<Rightarrow> json \<Rightarrow> (string \<times> json) list \<Rightarrow> (string \<times> json) list" where
  "set_own key v props =
     (if key \<in> set (map fst props)
      then map (\<lambda>(k, x). if k = key then (k, v) else (k, x)) props
      else props @ [(key, v)])"

fun proto_setter_inherited :: "json option \<Rightarrow> bool" where
  "proto_setter_inherited None = True"
| "proto_setter_inherited (Some (JObj kvs)) = (''__proto__'' \<notin> set (map fst kvs))"
| "proto_setter_inherited (Some (JArr xs)) = True"
| "proto_setter_inherited (Some v) = False"

definition assign_prop :: "string \<Rightarrow> json \<Rightarrow> js_object \<Rightarrow> js_object" where
  "assign_prop key v obj =
     (if key = ''__proto__'' \<and> ''__proto__'' \<notin> set (map fst (own_props obj)) \<and>
         proto_setter_inherited (prototype obj)
      then (if typeof v = ''object'' then obj\<lparr>prototype := Some v\<rparr> else obj)
      else obj\<lparr>own_props := set_own key v (own_props obj)\<rparr>)"

text \<open>One round of the loop of \<^verbatim>\<open>maskSensitiveHeaders\<close>, for a visited key and its value.\<close>

definition mask_step :: "string \<times> json \<Rightarrow> js_object \<Rightarrow> js_object" where
  "mask_step = (\<lambda>(key, v) masked.
     assign_prop key (if isSensitive key then masked_literal else v) masked)"

text \<open>
  \<^verbatim>\<open>maskSensitiveHeaders(headers)\<close>. A falsy or non-object argument gives the empty object;
  otherwise every visited key is assigned, with the placeholder or with its own value.
\<close>

definition maskSensitiveHeaders :: "json \<Rightarrow> js_object" where
  "maskSensitiveHeaders headers =
     (if headers = JNull \<or> typeof headers \<noteq> ''object'' then empty_object
      else fold mask_step (entries headers) empty_object)"

text \<open>
  \<^verbatim>\<open>mapFieldType(type)\<close>. \<open>typeMap\<close> is an object literal, so a lookup of a name that
  \<^verbatim>\<open>Object.prototype\<close> defines finds the inherited member, which is truthy and is
  returned as it is; \<open>Inherited\<close> stands for that value.
\<close>

datatype ui_type = UI string | Inherited string

definition typeMap :: "(string \<times> string) list" where
  "typeMap =
     [(''integer'', ''number''), (''number'', ''number''), (''string'', ''text''),
      (''boolean'', ''boolean''), (''object'', ''text''), (''array'', ''text''),
      (''null'', ''text'')]"

definition object_prototype_members :: "string list" where
  "object_prototype_members =
     [''constructor'', ''toString'', ''toLocaleString'', ''valueOf'', ''hasOwnProperty'',
      ''isPrototypeOf'', ''propertyIsEnumerable'', ''__proto__'', ''__defineGetter__'',
      ''__defineSetter__'', ''__lookupGetter__'', ''__lookupSetter__'']"

definition mapFieldType :: "string \<Rightarrow> ui_type" where
  "mapFieldType type =
     (if type \<noteq> [] \<and> str_includes type ''|'' then UI ''text''
      else (case map_of typeMap type of
              Some t \<Rightarrow> UI t
            | None \<Rightarrow> if type \<in> set object_prototype_members then Inherited type
                      else UI ''text''))"


text \<open>\<^verbatim>\<open>a || b\<close> on an optional string: the default replaces a missing or an empty one.\<close>

definition or_default :: "string option \<Rightarrow> string \<Rightarrow> string" where
  "or_default a b = (case a of None \<Rightarrow> b | Some s \<Rightarrow> if s = [] then b else s)"

record field =
  field_name :: string
  field_type :: string
  field_sample :: json

record pagination =
  pg_type :: string
  pageParam :: "string option"
  offsetParam :: "string option"
  limitParam :: "string option"
  metaPaths :: "(string \<times> string) list option"

text \<open>
  What the generator receives as \<open>schema\<close>: the request body's object. \<open>None\<close> is a
  property that is \<^verbatim>\<open>undefined\<close> (for \<open>gs_pagination\<close>, also \<^verbatim>\<open>null\<close>).
\<close>

record gen_schema =
  gs_url :: "string option"
  gs_fields :: "field list option"
  gs_samplePath :: "string option"
  gs_pagination :: "pagination option"
  gs_headers :: "json option"
  gs_queryParams :: "json option"

record gen_opts =
  opt_name :: "string option"

record datasource =
  ds_name :: string
  ds_type :: string
  ds_url :: "string option"
  ds_method :: string
  ds_headers :: js_object
  ds_queryParams :: json

record datasource_output =
  out_datasource :: datasource
  out_fields :: "field list"
  out_samplePath :: string
  out_pagination :: "pagination option"

definition generateDatasourceJSON :: "gen_schema \<Rightarrow> gen_opts \<Rightarrow> datasource_output" where
  "generateDatasourceJSON schema opts =
     (let url = gs_url schema;
          fields = (case gs_fields schema of None \<Rightarrow> [] | Some fs \<Rightarrow> fs);
          samplePath = gs_samplePath schema;
          pagination = gs_pagination schema;
          headers = (case gs_headers schema of None \<Rightarrow> JObj [] | Some h \<Rightarrow> h);
          queryParams = (case gs_queryParams schema of None \<Rightarrow> JObj [] | Some q \<Rightarrow> q);
          maskedHeaders = maskSensitiveHeaders headers;
          datasource = \<lparr>ds_name = or_default (opt_name opts) ''API Datasource'',
                        ds_type = ''restapi'',
                        ds_url = url,
                        ds_method = ''GET'',
                        ds_headers = maskedHeaders,
                        ds_queryParams = queryParams\<rparr>
      in \<lparr>out_datasource = datasource,
          out_fields = fields,
          out_samplePath = or_default samplePath ''$'',
          out_pagination = pagination\<rparr>)"

record column =
  col_name :: string
  col_key :: string
  col_type :: ui_type
  col_selector :: string

record table_component =
  tb_component :: string
  dataBinding :: string
  columns :: "column list"

record pagination_component =
  pc_component :: string
  pc_type :: string
  pc_pageParam :: string
  pc_limitParam :: string
  pc_metaPaths :: "(string \<times> string) list"

record components =
  cmp_table :: table_component
  cmp_pagination :: "pagination_component option"

record metadata =
  md_samplePath :: string
  fieldCount :: nat
  hasPagination :: bool

record import_wrapper =
  version :: string
  w_datasource :: datasource
  w_components :: components
  w_metadata :: metadata

text \<open>
  \<^verbatim>\<open>generateImportWrapper(schema, opts)\<close>. \<^verbatim>\<open>samplePath.replace('$', '')\<close> with a string
  pattern removes the first \<open>$\<close> of the path, wherever it stands.
\<close>

definition generateImportWrapper :: "gen_schema \<Rightarrow> gen_opts \<Rightarrow> import_wrapper" where
  "generateImportWrapper schema opts =
     (let fields = (case gs_fields schema of None \<Rightarrow> [] | Some fs \<Rightarrow> fs);
          samplePath = (case gs_samplePath schema of None \<Rightarrow> ''$'' | Some p \<Rightarrow> p);
          pagination = gs_pagination schema;
          datasourceConfig = generateDatasourceJSON schema opts;
          columns = map (\<lambda>field. \<lparr>col_name = field_name field,
                                   col_key = field_name field,
                                   col_type = mapFieldType (field_type field),
                                   col_selector = samplePath @ ''[].'' @ field_name field\<rparr>)
                        fields;
          table = \<lparr>tb_component = ''Table'',
                   dataBinding = ''{{datasource.data'' @ remove1 CHR ''$'' samplePath @ ''}}'',
                   columns = columns\<rparr>;
          pag = (case pagination of
                   None \<Rightarrow> None
                 | Some p \<Rightarrow>
                     Some \<lparr>pc_component = ''Pagination'',
                           pc_type = pg_type p,
                           pc_pageParam = or_default (pageParam p) ''page'',
                           pc_limitParam = or_default (limitParam p) ''limit'',
                           pc_metaPaths = (case metaPaths p of None \<Rightarrow> [] | Some m \<Rightarrow> m)\<rparr>)
      in \<lparr>version = ''1.0.0'',
          w_datasource = out_datasource datasourceConfig,
          w_components = \<lparr>cmp_table = table, cmp_pagination = pag\<rparr>,
          w_metadata = \<lparr>md_samplePath = samplePath,
                        fieldCount = length fields,
                        hasPagination = (pagination \<noteq> None)\<rparr>\<rparr>)"

section \<open>schema.js\<close>

fun array_length :: "json \<Rightarrow> nat" where
  "array_length (JArr xs) = length xs"
| "array_length v = 0"

text \<open>The loop of \<^verbatim>\<open>findArrayPath\<close>: the first visited key whose value is a non-empty array.\<close>

fun findArrayPath_loop :: "(string \<times> json) list \<Rightarrow> string option" where
  "findArrayPath_loop [] = None"
| "findArrayPath_loop ((key, v) # rest) =
     (if isArray v \<and> array_length v > 0 then Some key else findArrayPath_loop rest)"

definition findArrayPath :: "json \<Rightarrow> string option" where
  "findArrayPath obj =
     (if isArray obj then None
      else if typeof obj \<noteq> ''object'' \<or> obj = JNull then None
      else findArrayPath_loop (entries obj))"

definition inferType :: "json \<Rightarrow> string" where
  "inferType v =
     (if v = JNull then ''null''
      else if isArray v then ''array''
      else (let type = typeof v
            in if type = ''number'' then (if isInteger v then ''integer'' else ''number'')
               else type))"

definition inferFields :: "json \<Rightarrow> field list" where
  "inferFields sampleObj =
     (if typeof sampleObj \<noteq> ''object'' \<or> sampleObj = JNull then []
      else map (\<lambda>(key, v). \<lparr>field_name = key, field_type = inferType v, field_sample = v\<rparr>)
             (entries sampleObj))"


text \<open>
  \<^verbatim>\<open>mergeFieldTypes\<close> keeps a \<^verbatim>\<open>Map\<close> from field name to an entry holding a \<^verbatim>\<open>Set\<close> of
  type tags. Both remember insertion order: the map is a list of entries in the order
  of their first \<^verbatim>\<open>set\<close>, the set a list without repetition in the order of the first
  \<^verbatim>\<open>add\<close>.
\<close>

record field_info =
  info_name :: string
  info_types :: "string list"
  info_sample :: json

type_synonym field_map = "(string \<times> field_info) list"

definition set_add :: "string list \<Rightarrow> string \<Rightarrow> string list" where
  "set_add ts t = (if t \<in> set ts then ts else ts @ [t])"

definition map_has :: "field_map \<Rightarrow> string \<Rightarrow> bool" where
  "map_has m k = (k \<in> set (map fst m))"

text \<open>One round of the inner \<^verbatim>\<open>fields.forEach\<close>.\<close>

definition merge_field :: "field \<Rightarrow> field_map \<Rightarrow> field_map" where
  "merge_field field fieldMap =
     (if \<not> map_has fieldMap (field_name field)
      then fieldMap @ [(field_name field,
                        \<lparr>info_name = field_name field,
                         info_types = [field_type field],
                         info_sample = field_sample field\<rparr>)]
      else map (\<lambda>(k, info).
                  if k = field_name field
                  then (k, info\<lparr>info_types := set_add (info_types info) (field_type field)\<rparr>)
                  else (k, info))
             fieldMap)"

text \<open>One round of the outer \<^verbatim>\<open>samples.forEach\<close>.\<close>

definition merge_sample :: "json \<Rightarrow> field_map \<Rightarrow> field_map" where
  "merge_sample sample fieldMap = fold merge_field (inferFields sample) fieldMap"

fun join :: "string \<Rightarrow> string list \<Rightarrow> string" where
  "join sep [] = []"
| "join sep [x] = x"
| "join sep (x # y # ys) = x @ sep @ join sep (y # ys)"

text \<open>
  The final \<^verbatim>\<open>map\<close>: one tag stays as it is, several are sorted (the default
  \<^verbatim>\<open>sort()\<close> compares strings code unit by code unit) and joined.
\<close>

definition finish_field :: "field_info \<Rightarrow> field" where
  "finish_field fieldInfo =
     (let types = info_types fieldInfo;
          type = (case types of [t] \<Rightarrow> t | _ \<Rightarrow> join ''|'' (sort types))
      in \<lparr>field_name = info_name fieldInfo,
          field_type = type,
          field_sample = info_sample fieldInfo\<rparr>)"

definition mergeFieldTypes :: "json list \<Rightarrow> field list" where
  "mergeFieldTypes samples =
     (if samples = [] then []
      else (let fieldMap = fold merge_sample samples []
            in map (\<lambda>(k, fieldInfo). finish_field fieldInfo) fieldMap))"

text \<open>
  \<^verbatim>\<open>detectPagination\<close>. The function declares the constant \<open>paginationKeys\<close> before its
  loop; \<open>detect_with\<close> is the function's body with that constant as an argument, and
  \<open>detect_loop\<close> is the loop, which leaves at the first property that matches.
\<close>

definition paginationKeys :: "string list" where
  "paginationKeys = [''meta'', ''pagination'', ''paging'', ''page_info'']"

fun detect_loop :: "(string \<times> json) list \<Rightarrow> pagination option" where
  "detect_loop [] = None"
| "detect_loop ((key, v) # rest) =
     (if typeof v = ''object'' \<and> v \<noteq> JNull \<and> \<not> isArray v then
        (let hasPage = (has_key ''page'' v \<or> has_key ''current_page'' v \<or> has_key ''currentPage'' v);
             hasPerPage = (has_key ''per_page'' v \<or> has_key ''page_size'' v \<or>
                           has_key ''perPage'' v \<or> has_key ''pageSize'' v);
             hasTotal = (has_key ''total'' v \<or> has_key ''total_count'' v \<or> has_key ''totalCount'' v)
         in if hasPage \<and> (hasPerPage \<or> hasTotal) then
              (let pageKey = (if has_key ''page'' v then ''page''
                              else if has_key ''current_page'' v then ''current_page''
                              else ''currentPage'');
                   perPageKey = (if has_key ''per_page'' v then ''per_page''
                                 else if has_key ''page_size'' v then ''page_size''
                                 else if has_key ''perPage'' v then ''perPage''
                                 else ''pageSize'');
                   totalKey = (if has_key ''total'' v then ''total''
                               else if has_key ''total_count'' v then ''total_count''
                               else ''totalCount'')
               in Some \<lparr>pg_type = ''page'',
                        pageParam = Some ''page'',
                        offsetParam = None,
                        limitParam = Some ''limit'',
                        metaPaths = Some [(''currentPage'', key @ ''.'' @ pageKey),
                                          (''perPage'', key @ ''.'' @ perPageKey),
                                          (''total'', key @ ''.'' @ totalKey)]\<rparr>)
            else
              (let hasOffset = has_key ''offset'' v;
                   hasLimit = has_key ''limit'' v
               in if hasOffset \<and> hasLimit then
                    Some \<lparr>pg_type = ''offset'',
                          pageParam = None,
                          offsetParam = Some ''offset'',
                          limitParam = Some ''limit'',
                          metaPaths = Some [(''offset'', key @ ''.offset''),
                                            (''limit'', key @ ''.limit''),
                                            (''total'', key @ ''.total'')]\<rparr>
                  else detect_loop rest))
      else detect_loop rest)"

declare detect_loop.simps(2) [simp del]

definition detect_with :: "string list \<Rightarrow> json \<Rightarrow> pagination option" where
  "detect_with names obj =
     (if typeof obj \<noteq> ''object'' \<or> obj = JNull then None
      else detect_loop (entries obj))"

definition detectPagination :: "json \<Rightarrow> pagination option" where
  "detectPagination obj = detect_with paginationKeys obj"

text \<open>
  \<^verbatim>\<open>inferSchema\<close>. \<open>get_prop\<close> is the property read \<^verbatim>\<open>data[arrayKey]\<close>; \<^verbatim>\<open>if (arrayKey)\<close>
  is the truthiness of a string or \<^verbatim>\<open>null\<close>, which the empty string fails as
  \<^verbatim>\<open>null\<close> does. A read that does not give an array makes \<^verbatim>\<open>array.slice\<close> or the
  \<^verbatim>\<open>forEach\<close> after it throw.
\<close>

record schema =
  sc_samplePath :: string
  sc_fields :: "field list"
  sc_pagination :: "pagination option"

datatype js_error = TypeError

definition get_prop :: "json \<Rightarrow> string \<Rightarrow> json" where
  "get_prop obj k = (case map_of (entries obj) k of None \<Rightarrow> JUndefined | Some v \<Rightarrow> v)"

definition slice5 :: "json list \<Rightarrow> json list" where
  "slice5 xs = take (min 5 (length xs)) xs"

text \<open>The first half of \<^verbatim>\<open>inferSchema\<close>: where the records are, and the sampled ones.\<close>

definition locate_samples :: "json \<Rightarrow> js_error + (string \<times> json list) option" where
  "locate_samples data =
     (case data of
        JArr xs \<Rightarrow> Inr (Some (''$'', slice5 xs))
      | _ \<Rightarrow>
          if typeof data = ''object'' then
            (case findArrayPath data of
               None \<Rightarrow> Inr None
             | Some arrayKey \<Rightarrow>
                 if arrayKey \<noteq> [] then
                   (case get_prop data arrayKey of
                      JArr array \<Rightarrow> Inr (Some (''$.'' @ arrayKey, slice5 array))
                    | _ \<Rightarrow> Inl TypeError)
                 else Inr None)
          else Inr None)"

definition inferSchema :: "json \<Rightarrow> js_error + schema option" where
  "inferSchema data =
     (if data = JNull \<or> data = JUndefined then Inr None
      else if isArray data \<and> array_length data = 0 then Inr None
      else (case locate_samples data of
              Inl e \<Rightarrow> Inl e
            | Inr None \<Rightarrow> Inr None
            | Inr (Some (path, samples)) \<Rightarrow>
                Inr (Some \<lparr>sc_samplePath = path,
                           sc_fields = mergeFieldTypes samples,
                           sc_pagination =
                             (if isArray data then None else detectPagination data)\<rparr>)))"


section \<open>fetcher.js\<close>

text \<open>
  \<^verbatim>\<open>fetchWithRetry\<close> awaits \<^verbatim>\<open>axios(...)\<close> and \<^verbatim>\<open>sleep(delay)\<close>. The network is the
  function \<open>axios\<close> from the number of the call (0 for the first) to what the awaited
  promise does: it is fulfilled with a response, or rejected with an error. The call
  passes \<^verbatim>\<open>validateStatus: () => true\<close>, so a response that arrives fulfils the promise
  whatever its status; a rejection has a \<open>response\<close> only if axios fails after one
  arrived. The second component of the result lists the requests sent and the delays
  slept, in order. \<open>maxRetries\<close> and \<open>initialDelay\<close> are integers, and
  \<^verbatim>\<open>Math.pow(2, attempt - 1)\<close> is the exact power.
\<close>

record response =
  resp_status :: int
  resp_statusText :: string
  resp_headers :: "(string \<times> string) list"
  resp_data :: json

record axios_error =
  err_message :: string
  err_code :: "string option"
  err_response :: "response option"

datatype outcome = Resolved response | Rejected axios_error

datatype event = Request nat | Sleep int

record fetch_result =
  success :: bool
  status :: int
  statusText :: "string option"
  res_headers :: "(string \<times> string) list option"
  res_data :: "json option"
  error :: "string option"
  errorType :: "string option"

text \<open>
  The \<^verbatim>\<open>while (attempt <= maxRetries)\<close> loop, from the current \<open>attempt\<close> and
  \<open>lastError\<close>. After the loop \<^verbatim>\<open>lastError.message\<close> is read: with no error recorded
  (\<open>lastError\<close> still \<^verbatim>\<open>null\<close>) that read throws.
\<close>

function fetch_loop ::
  "(nat \<Rightarrow> outcome) \<Rightarrow> int \<Rightarrow> int \<Rightarrow> nat \<Rightarrow> axios_error option
     \<Rightarrow> (js_error + fetch_result) \<times> event list" where
  "fetch_loop axios maxRetries initialDelay attempt lastError =
     (if int attempt \<le> maxRetries then
        (case axios attempt of
           Resolved r \<Rightarrow>
             (Inr \<lparr>success = True,
                   status = resp_status r,
                   statusText = Some (resp_statusText r),
                   res_headers = Some (resp_headers r),
                   res_data = Some (resp_data r),
                   error = None,
                   errorType = None\<rparr>,
              [Request attempt])
         | Rejected e \<Rightarrow>
             (case err_response e of
                Some r \<Rightarrow>
                  (Inr \<lparr>success = False,
                        status = resp_status r,
                        statusText = Some (resp_statusText r),
                        res_headers = Some (resp_headers r),
                        res_data = Some (resp_data r),
                        error = Some (err_message e),
                        errorType = None\<rparr>,
                   [Request attempt])
              | None \<Rightarrow>
                  (let attempt' = attempt + 1;
                       waits = (if int attempt' \<le> maxRetries
                                then [Sleep (initialDelay * 2 ^ (attempt' - 1))] else []);
                       (res, evs) = fetch_loop axios maxRetries initialDelay attempt' (Some e)
                   in (res, Request attempt # waits @ evs))))
      else
        (case lastError of
           None \<Rightarrow> (Inl TypeError, [])
         | Some e \<Rightarrow>
             (Inr \<lparr>success = False,
                   status = 0,
                   statusText = None,
                   res_headers = None,
                   res_data = None,
                   error = Some (err_message e),
                   errorType = Some (or_default (err_code e) ''NETWORK_ERROR'')\<rparr>,
              [])))"
  by pat_completeness auto
termination
  by (relation "measure (\<lambda>(axios, maxRetries, initialDelay, attempt, lastError).
                  nat (maxRetries + 1 - int attempt))") auto

declare fetch_loop.simps [simp del]

definition fetchWithRetry ::
  "(nat \<Rightarrow> outcome) \<Rightarrow> int \<Rightarrow> int \<Rightarrow> (js_error + fetch_result) \<times> event list" where
  "fetchWithRetry axios maxRetries initialDelay = fetch_loop axios maxRetries initialDelay 0 None"

section \<open>Vocabulary of the statements, and inputs for concrete runs\<close>

text \<open>
  The tests of \<open>detect_loop\<close> by name, for the statements about it: the property values
  the loop looks into, its two signatures, and the key a chain of conditionals picks from
  a list of synonyms (the first one present, the fallback when none is).
\<close>

definition is_container :: "json \<Rightarrow> bool" where
  "is_container v = (typeof v = ''object'' \<and> v \<noteq> JNull \<and> \<not> isArray v)"

definition page_signature :: "json \<Rightarrow> bool" where
  "page_signature v =
     ((has_key ''page'' v \<or> has_key ''current_page'' v \<or> has_key ''currentPage'' v) \<and>
      ((has_key ''per_page'' v \<or> has_key ''page_size'' v \<or>
        has_key ''perPage'' v \<or> has_key ''pageSize'' v) \<or>
       (has_key ''total'' v \<or> has_key ''total_count'' v \<or> has_key ''totalCount'' v)))"

definition offset_signature :: "json \<Rightarrow> bool" where
  "offset_signature v = (has_key ''offset'' v \<and> has_key ''limit'' v)"

definition accepts :: "json \<Rightarrow> bool" where
  "accepts v = (is_container v \<and> (page_signature v \<or> offset_signature v))"

definition first_present :: "string list \<Rightarrow> string \<Rightarrow> json \<Rightarrow> string" where
  "first_present synonyms fallback v =
     (case find (\<lambda>s. has_key s v) synonyms of Some s \<Rightarrow> s | None \<Rightarrow> fallback)"

text \<open>A schema of the kind the tests of \<^verbatim>\<open>/api/generate\<close> post, with an offset pagination.\<close>

definition sample_schema :: gen_schema where
  "sample_schema =
     \<lparr>gs_url = Some ''http://api.example.com/orders'',
      gs_fields = Some [\<lparr>field_name = ''id'', field_type = ''integer'', field_sample = JNum 1\<rparr>,
                        \<lparr>field_name = ''customer'', field_type = ''string'',
                         field_sample = JStr ''John Doe''\<rparr>],
      gs_samplePath = Some ''$.orders'',
      gs_pagination = Some \<lparr>pg_type = ''offset'', pageParam = None, offsetParam = Some ''offset'',
                             limitParam = Some ''size'', metaPaths = None\<rparr>,
      gs_headers = None,
      gs_queryParams = None\<rparr>"

text \<open>
  For the statements about the fetcher: the response an awaited call brought, if any,
  and the requests and the delays of a list of events.
\<close>

fun received :: "outcome \<Rightarrow> response option" where
  "received (Resolved r) = Some r"
| "received (Rejected e) = err_response e"

fun requests :: "event list \<Rightarrow> nat list" where
  "requests [] = []"
| "requests (Request n # evs) = n # requests evs"
| "requests (Sleep d # evs) = requests evs"

fun delays :: "event list \<Rightarrow> int list" where
  "delays [] = []"
| "delays (Request n # evs) = delays evs"
| "delays (Sleep d # evs) = d # delays evs"

text \<open>
  Three networks for concrete runs: a server that answers every request with 404, a
  host that refuses every connection, and a server that is unreachable once and then
  answers 503.
\<close>

definition not_found_server :: "nat \<Rightarrow> outcome" where
  "not_found_server n =
     Resolved \<lparr>resp_status = 404, resp_statusText = ''Not Found'', resp_headers = [],
               resp_data = JNull\<rparr>"

definition unreachable_host :: "nat \<Rightarrow> outcome" where
  "unreachable_host n =
     Rejected \<lparr>err_message = ''connect ECONNREFUSED'', err_code = None, err_response = None\<rparr>"

definition flaky_server :: "nat \<Rightarrow> outcome" where
  "flaky_server n =
     (if n < 1
      then Rejected \<lparr>err_message = ''timeout of 10000ms exceeded'',
                     err_code = Some ''ECONNABORTED'', err_response = None\<rparr>
      else Resolved \<lparr>resp_status = 503, resp_statusText = ''Service Unavailable'',
                     resp_headers = [], resp_data = JNull\<rparr>)"

text \<open>
  For the statements about \<open>mergeFieldTypes\<close>: the names of a list in the order of
  their first occurrence, and what an entry of the map holds once the fields \<open>fs\<close> have
  been merged, in terms of the fields of that name.
\<close>

fun first_seen :: "string list \<Rightarrow> string list" where
  "first_seen [] = []"
| "first_seen (x # xs) = x # removeAll x (first_seen xs)"

definition entry_of :: "field list \<Rightarrow> string \<Rightarrow> field_info \<Rightarrow> bool" where
  "entry_of fs k info =
     (info_name info = k \<and>
      distinct (info_types info) \<and>
      set (info_types info) = set (map field_type (filter (\<lambda>f. field_name f = k) fs)) \<and>
      filter (\<lambda>f. field_name f = k) fs \<noteq> [] \<and>
      info_sample info = field_sample (hd (filter (\<lambda>f. field_name f = k) fs)))"

text \<open>Two records whose fields \<open>a\<close> and \<open>b\<close> change type and come in a different order.\<close>

definition two_samples :: "json list" where
  "two_samples =
     [JObj [(''a'', JNum 1), (''b'', JStr ''x'')],
      JObj [(''b'', JNum (1 / 2)), (''c'', JBool True), (''a'', JStr ''k'')]]"

section \<open>Properties of generator.js\<close>

lemma str_includes_char: "str_includes s [c] \<longleftrightarrow> c \<in> set s"
  unfolding str_includes_def
  by (induction s) (auto simp: sublist_Cons_right)

text \<open>
  Claim C8. \<open>mapFieldType\<close> sends the tags \<open>integer\<close> and \<open>number\<close> to the UI type
  \<open>number\<close>, the tags \<open>string\<close>, \<open>object\<close>, \<open>array\<close> and \<open>null\<close> to \<open>text\<close>, and every
  type string that contains the character \<open>|\<close> to \<open>text\<close>, whatever stands around it.
\<close>

theorem mapFieldType_tags:
  "mapFieldType ''integer'' = UI ''number'' \<and>
   mapFieldType ''number'' = UI ''number'' \<and>
   mapFieldType ''string'' = UI ''text'' \<and>
   mapFieldType ''object'' = UI ''text'' \<and>
   mapFieldType ''array'' = UI ''text'' \<and>
   mapFieldType ''null'' = UI ''text'' \<and>
   (\<forall>t. CHR ''|'' \<in> set t \<longrightarrow> mapFieldType t = UI ''text'')"
proof -
  have u: "mapFieldType t = UI ''text''" if "CHR ''|'' \<in> set t" for t
  proof -
    from that have "t \<noteq> []" by auto
    moreover from that have "str_includes t ''|''" by (simp add: str_includes_char)
    ultimately show ?thesis by (simp add: mapFieldType_def)
  qed
  have "mapFieldType ''integer'' = UI ''number''" by code_simp
  moreover have "mapFieldType ''number'' = UI ''number''" by code_simp
  moreover have "mapFieldType ''string'' = UI ''text''" by code_simp
  moreover have "mapFieldType ''object'' = UI ''text''" by code_simp
  moreover have "mapFieldType ''array'' = UI ''text''" by code_simp
  moreover have "mapFieldType ''null'' = UI ''text''" by code_simp
  ultimately show ?thesis using u by blast
qed

theorem mapFieldType_tags_witness:
  "CHR ''|'' \<in> set ''boolean|number|string'' \<and>
   mapFieldType ''boolean|number|string'' = UI ''text''"
  using mapFieldType_tags by simp

lemma isSensitive_denylist:
  "isSensitive k \<longleftrightarrow>
     (\<exists>d \<in> set [''authorization'', ''api-key'', ''api_key'', ''apikey'', ''x-api-key'',
                 ''x-auth-token'', ''token'', ''secret'', ''password'', ''bearer''].
        sublist d (toLowerCase k))"
  by (simp add: isSensitive_def SENSITIVE_HEADERS_def str_includes_def list_ex_iff del: set_simps)

lemma not_sensitive_proto: "\<not> isSensitive ''__proto__''"
  by code_simp

lemma masked_keys:
  "map fst (map (\<lambda>(key, v). (key, if isSensitive key then masked_literal else v)) hs) = map fst hs"
  by (induction hs) auto

lemma assign_new:
  "key \<noteq> ''__proto__'' \<Longrightarrow> key \<notin> set (map fst m) \<Longrightarrow>
   assign_prop key x \<lparr>own_props = m, prototype = None\<rparr> =
     \<lparr>own_props = m @ [(key, x)], prototype = None\<rparr>"
  by (simp add: assign_prop_def set_own_def)

lemma mask_fold_ordinary:
  "''__proto__'' \<notin> set (map fst hs) \<Longrightarrow> distinct (map fst hs) \<Longrightarrow>
   fold mask_step hs empty_object =
     \<lparr>own_props = map (\<lambda>(key, v). (key, if isSensitive key then masked_literal else v)) hs,
      prototype = None\<rparr>"
proof (induction hs rule: rev_induct)
  case Nil
  show ?case by (simp add: empty_object_def)
next
  case (snoc kv hs)
  obtain key v where kv: "kv = (key, v)" by (cases kv)
  from snoc.prems kv have np: "key \<noteq> ''__proto__''" and nk: "key \<notin> set (map fst hs)"
    by auto
  from snoc have ih: "fold mask_step hs empty_object =
     \<lparr>own_props = map (\<lambda>(key, v). (key, if isSensitive key then masked_literal else v)) hs,
      prototype = None\<rparr>"
    by simp
  let ?m = "map (\<lambda>(key, v). (key, if isSensitive key then masked_literal else v)) hs"
  have nin: "key \<notin> set (map fst ?m)"
    unfolding masked_keys by (rule nk)
  have one: "mask_step (key, v) \<lparr>own_props = ?m, prototype = None\<rparr> =
      \<lparr>own_props = ?m @ [(key, if isSensitive key then masked_literal else v)],
       prototype = None\<rparr>"
    unfolding mask_step_def prod.case using np nin by (rule assign_new)
  have "fold mask_step (hs @ [kv]) empty_object = mask_step kv (fold mask_step hs empty_object)"
    by simp
  also have "\<dots> = mask_step (key, v) \<lparr>own_props = ?m, prototype = None\<rparr>"
    by (simp only: ih kv)
  also note one
  finally show ?case by (simp add: kv)
qed

lemma mask_obj:
  "''__proto__'' \<notin> set (map fst hs) \<Longrightarrow> distinct (map fst hs) \<Longrightarrow>
   maskSensitiveHeaders (JObj hs) =
     \<lparr>own_props = map (\<lambda>(key, v). (key, if isSensitive key then masked_literal else v)) hs,
      prototype = None\<rparr>"
  by (simp add: maskSensitiveHeaders_def mask_fold_ordinary)

lemma masked_twice:
  "map (\<lambda>(key, v). (key, if isSensitive key then masked_literal else v))
     (map (\<lambda>(key, v). (key, if isSensitive key then masked_literal else v)) hs) =
   map (\<lambda>(key, v). (key, if isSensitive key then masked_literal else v)) hs"
  by (induction hs) auto

text \<open>
  What holds of the headers the loop handles by plain property writes, those with no
  header named \<^verbatim>\<open>__proto__\<close>: a header is sensitive exactly when its lower-cased name
  contains one of the ten denylist strings; the result has the default prototype and
  the header names in their order; the value at each position is the literal
  \<open><masked>\<close> if the name is sensitive and the original value otherwise; and masking
  the result again changes nothing.
\<close>

lemma maskSensitiveHeaders_ordinary:
  assumes "''__proto__'' \<notin> set (map fst hs)" and "distinct (map fst hs)"
  shows "isSensitive k \<longleftrightarrow>
     (\<exists>d \<in> set [''authorization'', ''api-key'', ''api_key'', ''apikey'', ''x-api-key'',
                 ''x-auth-token'', ''token'', ''secret'', ''password'', ''bearer''].
        sublist d (toLowerCase k))"
    and "prototype (maskSensitiveHeaders (JObj hs)) = None"
    and "map fst (own_props (maskSensitiveHeaders (JObj hs))) = map fst hs"
    and "\<forall>i < length hs.
      snd (own_props (maskSensitiveHeaders (JObj hs)) ! i) =
        (if isSensitive (fst (hs ! i)) then JStr ''<masked>'' else snd (hs ! i))"
    and "\<forall>(key, v) \<in> set (own_props (maskSensitiveHeaders (JObj hs))).
      isSensitive key \<longrightarrow> v = JStr ''<masked>''"
    and "maskSensitiveHeaders (JObj (own_props (maskSensitiveHeaders (JObj hs)))) =
      maskSensitiveHeaders (JObj hs)"
proof -
  note m = mask_obj [OF assms]
  show "isSensitive k \<longleftrightarrow>
     (\<exists>d \<in> set [''authorization'', ''api-key'', ''api_key'', ''apikey'', ''x-api-key'',
                 ''x-auth-token'', ''token'', ''secret'', ''password'', ''bearer''].
        sublist d (toLowerCase k))"
    by (rule isSensitive_denylist)
  show "prototype (maskSensitiveHeaders (JObj hs)) = None"
    by (simp add: m)
  show "map fst (own_props (maskSensitiveHeaders (JObj hs))) = map fst hs"
    by (simp only: m js_object.simps masked_keys)
  show "\<forall>i < length hs.
      snd (own_props (maskSensitiveHeaders (JObj hs)) ! i) =
        (if isSensitive (fst (hs ! i)) then JStr ''<masked>'' else snd (hs ! i))"
    by (simp add: m masked_literal_def split: prod.splits)
  show "\<forall>(key, v) \<in> set (own_props (maskSensitiveHeaders (JObj hs))).
      isSensitive key \<longrightarrow> v = JStr ''<masked>''"
    by (auto simp: m masked_literal_def)
  let ?hs' = "map (\<lambda>(key, v). (key, if isSensitive key then masked_literal else v)) hs"
  have "''__proto__'' \<notin> set (map fst ?hs')"
    unfolding masked_keys by (rule assms(1))
  moreover have "distinct (map fst ?hs')"
    unfolding masked_keys by (rule assms(2))
  ultimately have "maskSensitiveHeaders (JObj ?hs') =
      \<lparr>own_props = map (\<lambda>(key, v). (key, if isSensitive key then masked_literal else v)) ?hs',
       prototype = None\<rparr>"
    by (rule mask_obj)
  then show "maskSensitiveHeaders (JObj (own_props (maskSensitiveHeaders (JObj hs)))) =
      maskSensitiveHeaders (JObj hs)"
    by (simp only: m js_object.simps masked_twice)
qed

text \<open>
  Claim C7 at two headers maps that hold a header named \<^verbatim>\<open>__proto__\<close>, as
  \<^verbatim>\<open>JSON.parse\<close> makes them. The name contains no denylist string, so the claim has its
  value passed through unchanged. With a string value the header is dropped: the result
  has only the other header. With an object value the header is dropped too, and the
  value, with the credential it holds, becomes the prototype of the result.
\<close>

theorem maskSensitiveHeaders_proto_header:
  "maskSensitiveHeaders (JObj [(''__proto__'', JStr ''x''), (''Accept'', JStr ''text/html'')]) =
     \<lparr>own_props = [(''Accept'', JStr ''text/html'')], prototype = None\<rparr> \<and>
   maskSensitiveHeaders (JObj [(''__proto__'', JObj [(''Authorization'', JStr ''Bearer xyz'')])]) =
     \<lparr>own_props = [], prototype = Some (JObj [(''Authorization'', JStr ''Bearer xyz'')])\<rparr>"
proof -
  have a: "\<not> isSensitive ''Accept''" by code_simp
  show ?thesis
    by (simp add: maskSensitiveHeaders_def mask_step_def assign_prop_def set_own_def
          empty_object_def not_sensitive_proto a)
qed

text \<open>
  Claim C9. For every schema, with \<open>fs\<close> its field list (empty if absent) and \<open>sp\<close>
  its sample path (\<open>$\<close> if absent), \<open>generateImportWrapper\<close> emits one table column
  per field, in the field list's order, with name and key the field's name and selector
  \<open>sp[].name\<close>; when the path is \<open>$\<close> followed by \<open>rest\<close>, the data binding is
  \<open>{{datasource.data\<close>, \<open>rest\<close>, \<open>}}\<close>; the pagination component is there exactly when
  the schema has a pagination, it carries the pagination's type, and its page and limit
  parameters are the schema's, or \<open>page\<close> and \<open>limit\<close> where the schema has none.
\<close>

theorem generateImportWrapper_shape:
  "(let w = generateImportWrapper schema opts;
        fs = (case gs_fields schema of None \<Rightarrow> [] | Some l \<Rightarrow> l);
        sp = (case gs_samplePath schema of None \<Rightarrow> ''$'' | Some p \<Rightarrow> p);
        cols = columns (cmp_table (w_components w))
    in length cols = length fs \<and>
       map col_name cols = map field_name fs \<and>
       map col_key cols = map field_name fs \<and>
       map col_selector cols = map (\<lambda>f. sp @ ''[].'' @ field_name f) fs \<and>
       (\<forall>rest. sp = CHR ''$'' # rest \<longrightarrow>
          dataBinding (cmp_table (w_components w)) = ''{{datasource.data'' @ rest @ ''}}'') \<and>
       (cmp_pagination (w_components w) = None \<longleftrightarrow> gs_pagination schema = None) \<and>
       (\<forall>p. gs_pagination schema = Some p \<longrightarrow>
          (\<exists>pc. cmp_pagination (w_components w) = Some pc \<and>
                pc_type pc = pg_type p \<and>
                (pageParam p = None \<longrightarrow> pc_pageParam pc = ''page'') \<and>
                (\<forall>s. pageParam p = Some s \<and> s \<noteq> [] \<longrightarrow> pc_pageParam pc = s) \<and>
                (limitParam p = None \<longrightarrow> pc_limitParam pc = ''limit'') \<and>
                (\<forall>s. limitParam p = Some s \<and> s \<noteq> [] \<longrightarrow> pc_limitParam pc = s))))"
  by (auto simp: generateImportWrapper_def Let_def or_default_def comp_def split: option.splits)

theorem generateImportWrapper_shape_witness:
  "map col_selector (columns (cmp_table (w_components
      (generateImportWrapper sample_schema \<lparr>opt_name = None\<rparr>)))) =
     [''$.orders[].id'', ''$.orders[].customer''] \<and>
   dataBinding (cmp_table (w_components (generateImportWrapper sample_schema \<lparr>opt_name = None\<rparr>)))
     = ''{{datasource.data.orders}}'' \<and>
   (\<exists>pc. cmp_pagination (w_components (generateImportWrapper sample_schema \<lparr>opt_name = None\<rparr>))
           = Some pc \<and>
      pc_type pc = ''offset'' \<and> pc_pageParam pc = ''page'' \<and> pc_limitParam pc = ''size'')"
  using generateImportWrapper_shape [of sample_schema "\<lparr>opt_name = None\<rparr>"]
  by (simp add: sample_schema_def Let_def)

section \<open>Properties of schema.js: pagination\<close>

lemma detect_loop_skip:
  "\<not> accepts v \<Longrightarrow> detect_loop ((k, v) # rest) = detect_loop rest"
  by (auto simp: detect_loop.simps accepts_def is_container_def page_signature_def
        offset_signature_def Let_def)

lemma detect_loop_page:
  "is_container v \<Longrightarrow> page_signature v \<Longrightarrow>
   detect_loop ((k, v) # rest) =
     Some \<lparr>pg_type = ''page'', pageParam = Some ''page'', offsetParam = None,
           limitParam = Some ''limit'',
           metaPaths = Some
             [(''currentPage'',
               k @ ''.'' @ first_present [''page'', ''current_page'', ''currentPage''] ''currentPage'' v),
              (''perPage'',
               k @ ''.'' @ first_present [''per_page'', ''page_size'', ''perPage'', ''pageSize''] ''pageSize'' v),
              (''total'',
               k @ ''.'' @ first_present [''total'', ''total_count'', ''totalCount''] ''totalCount'' v)]\<rparr>"
  by (simp add: detect_loop.simps is_container_def page_signature_def first_present_def Let_def)

lemma detect_loop_offset:
  "is_container v \<Longrightarrow> \<not> page_signature v \<Longrightarrow> offset_signature v \<Longrightarrow>
   detect_loop ((k, v) # rest) =
     Some \<lparr>pg_type = ''offset'', pageParam = None, offsetParam = Some ''offset'',
           limitParam = Some ''limit'',
           metaPaths = Some [(''offset'', k @ ''.offset''), (''limit'', k @ ''.limit''),
                             (''total'', k @ ''.total'')]\<rparr>"
  by (simp add: detect_loop.simps is_container_def page_signature_def offset_signature_def Let_def)

lemma detect_loop_prefix:
  "\<forall>(k', v') \<in> set pre. \<not> accepts v' \<Longrightarrow> detect_loop (pre @ rest) = detect_loop rest"
  by (induction pre) (auto simp: detect_loop_skip)

lemma detect_loop_None:
  "detect_loop kvs = None \<longleftrightarrow> (\<forall>(k, v) \<in> set kvs. \<not> accepts v)"
proof (induction kvs)
  case Nil
  show ?case by simp
next
  case (Cons kv kvs)
  obtain k v where kv: "kv = (k, v)" by (cases kv)
  show ?case
  proof (cases "accepts v")
    case False
    with Cons kv show ?thesis by (simp add: detect_loop_skip)
  next
    case True
    then have c: "is_container v" and s: "page_signature v \<or> offset_signature v"
      by (simp_all add: accepts_def)
    have "detect_loop ((k, v) # kvs) \<noteq> None"
    proof (cases "page_signature v")
      case True
      with c show ?thesis by (simp add: detect_loop_page)
    next
      case False
      with c s show ?thesis by (simp add: detect_loop_offset)
    qed
    with True kv show ?thesis by auto
  qed
qed

lemma detectPagination_obj: "detectPagination (JObj kvs) = detect_loop kvs"
  by (simp add: detectPagination_def detect_with_def)

lemma first_present_page:
  "page_signature v \<Longrightarrow>
   has_key (first_present [''page'', ''current_page'', ''currentPage''] ''currentPage'' v) v"
  by (auto simp: page_signature_def first_present_def)

lemma inferSchema_array:
  "inferSchema (JArr xs) =
     (if xs = [] then Inr None
      else Inr (Some \<lparr>sc_samplePath = ''$'', sc_fields = mergeFieldTypes (slice5 xs),
                      sc_pagination = None\<rparr>))"
  by (simp add: inferSchema_def locate_samples_def)

text \<open>
  Claim C5, as the code has it. For an object, \<open>detectPagination\<close> gives nothing exactly
  when no property value is accepted (a non-array object with the page-based or the
  offset-based signature). Otherwise the first accepted property \<open>k\<close> decides alone, and
  the page-based signature is tested first: it gives type \<open>page\<close> with the canonical
  parameters \<open>page\<close> and \<open>limit\<close>, and each meta path is \<open>k\<close>, a dot, and the first
  synonym of its role that the container has, or the last synonym of the role
  (\<open>pageSize\<close>, \<open>totalCount\<close>) when the container has none; the current-page path always
  names a key of the container. The offset-based signature gives type \<open>offset\<close> with the
  canonical parameters \<open>offset\<close> and \<open>limit\<close> and the paths \<open>k.offset\<close>, \<open>k.limit\<close> and
  \<open>k.total\<close>, whether or not the container has a \<open>total\<close>. A schema inferred from a
  top-level array has no pagination.
\<close>

theorem detectPagination_first_container:
  "(detectPagination (JObj kvs) = None \<longleftrightarrow> (\<forall>(k, v) \<in> set kvs. \<not> accepts v)) \<and>
   (\<forall>pre k v post.
      kvs = pre @ (k, v) # post \<and> (\<forall>(k', v') \<in> set pre. \<not> accepts v') \<and>
      is_container v \<and> page_signature v \<longrightarrow>
      detectPagination (JObj kvs) =
        Some \<lparr>pg_type = ''page'', pageParam = Some ''page'', offsetParam = None,
              limitParam = Some ''limit'',
              metaPaths = Some
                [(''currentPage'',
                  k @ ''.'' @ first_present [''page'', ''current_page'', ''currentPage''] ''currentPage'' v),
                 (''perPage'',
                  k @ ''.'' @ first_present [''per_page'', ''page_size'', ''perPage'', ''pageSize''] ''pageSize'' v),
                 (''total'',
                  k @ ''.'' @ first_present [''total'', ''total_count'', ''totalCount''] ''totalCount'' v)]\<rparr> \<and>
      has_key (first_present [''page'', ''current_page'', ''currentPage''] ''currentPage'' v) v) \<and>
   (\<forall>pre k v post.
      kvs = pre @ (k, v) # post \<and> (\<forall>(k', v') \<in> set pre. \<not> accepts v') \<and>
      is_container v \<and> \<not> page_signature v \<and> offset_signature v \<longrightarrow>
      detectPagination (JObj kvs) =
        Some \<lparr>pg_type = ''offset'', pageParam = None, offsetParam = Some ''offset'',
              limitParam = Some ''limit'',
              metaPaths = Some [(''offset'', k @ ''.offset''), (''limit'', k @ ''.limit''),
                                (''total'', k @ ''.total'')]\<rparr>) \<and>
   (\<forall>xs s. inferSchema (JArr xs) = Inr (Some s) \<longrightarrow> sc_pagination s = None)"
proof (intro conjI allI impI)
  show "detectPagination (JObj kvs) = None \<longleftrightarrow> (\<forall>(k, v) \<in> set kvs. \<not> accepts v)"
    by (simp add: detectPagination_obj detect_loop_None)
next
  fix pre k v post
  assume a: "kvs = pre @ (k, v) # post \<and> (\<forall>(k', v') \<in> set pre. \<not> accepts v') \<and>
      is_container v \<and> page_signature v"
  then have "detect_loop kvs = detect_loop ((k, v) # post)"
    by (simp add: detect_loop_prefix)
  with a show "detectPagination (JObj kvs) =
        Some \<lparr>pg_type = ''page'', pageParam = Some ''page'', offsetParam = None,
              limitParam = Some ''limit'',
              metaPaths = Some
                [(''currentPage'',
                  k @ ''.'' @ first_present [''page'', ''current_page'', ''currentPage''] ''currentPage'' v),
                 (''perPage'',
                  k @ ''.'' @ first_present [''per_page'', ''page_size'', ''perPage'', ''pageSize''] ''pageSize'' v),
                 (''total'',
                  k @ ''.'' @ first_present [''total'', ''total_count'', ''totalCount''] ''totalCount'' v)]\<rparr>"
    by (simp add: detectPagination_obj detect_loop_page)
  from a show "has_key (first_present [''page'', ''current_page'', ''currentPage''] ''currentPage'' v) v"
    by (simp add: first_present_page)
next
  fix pre k v post
  assume a: "kvs = pre @ (k, v) # post \<and> (\<forall>(k', v') \<in> set pre. \<not> accepts v') \<and>
      is_container v \<and> \<not> page_signature v \<and> offset_signature v"
  then have "detect_loop kvs = detect_loop ((k, v) # post)"
    by (simp add: detect_loop_prefix)
  with a show "detectPagination (JObj kvs) =
        Some \<lparr>pg_type = ''offset'', pageParam = None, offsetParam = Some ''offset'',
              limitParam = Some ''limit'',
              metaPaths = Some [(''offset'', k @ ''.offset''), (''limit'', k @ ''.limit''),
                                (''total'', k @ ''.total'')]\<rparr>"
    by (simp add: detectPagination_obj detect_loop_offset)
next
  fix xs s
  assume "inferSchema (JArr xs) = Inr (Some s)"
  then show "sc_pagination s = None"
    by (auto simp: inferSchema_array split: if_splits)
qed

theorem detectPagination_first_container_witness:
  "detectPagination
     (JObj [(''orders'', JArr [JObj [(''id'', JNum 1)]]),
            (''meta'', JObj [(''page'', JNum 1), (''per_page'', JNum 10), (''total'', JNum 100)])]) =
     Some \<lparr>pg_type = ''page'', pageParam = Some ''page'', offsetParam = None,
           limitParam = Some ''limit'',
           metaPaths = Some [(''currentPage'', ''meta.page''), (''perPage'', ''meta.per_page''),
                             (''total'', ''meta.total'')]\<rparr> \<and>
   detectPagination
     (JObj [(''count'', JNum 3), (''paging'', JObj [(''offset'', JNum 0), (''limit'', JNum 10)])]) =
     Some \<lparr>pg_type = ''offset'', pageParam = None, offsetParam = Some ''offset'',
           limitParam = Some ''limit'',
           metaPaths = Some [(''offset'', ''paging.offset''), (''limit'', ''paging.limit''),
                             (''total'', ''paging.total'')]\<rparr> \<and>
   inferSchema (JArr [JObj [(''page'', JObj [(''page'', JNum 1), (''total'', JNum 2)])]]) =
     Inr (Some \<lparr>sc_samplePath = ''$'',
                sc_fields = [\<lparr>field_name = ''page'', field_type = ''object'',
                              field_sample = JObj [(''page'', JNum 1), (''total'', JNum 2)]\<rparr>],
                sc_pagination = None\<rparr>)"
proof (intro conjI)
  let ?v = "JObj [(''page'', JNum 1), (''per_page'', JNum 10), (''total'', JNum 100)]"
  let ?pre = "[(''orders'', JArr [JObj [(''id'', JNum 1)]])]"
  have p: "\<forall>(k', v') \<in> set ?pre. \<not> accepts v'"
    by (simp add: accepts_def is_container_def)
  have c: "is_container ?v" by (simp add: is_container_def)
  have s: "page_signature ?v" by (simp add: page_signature_def has_key_def)
  have f: "first_present [''page'', ''current_page'', ''currentPage''] ''currentPage'' ?v = ''page''"
    "first_present [''per_page'', ''page_size'', ''perPage'', ''pageSize''] ''pageSize'' ?v = ''per_page''"
    "first_present [''total'', ''total_count'', ''totalCount''] ''totalCount'' ?v = ''total''"
    by (simp_all add: first_present_def has_key_def)
  from detectPagination_first_container
         [of "?pre @ (''meta'', ?v) # []", THEN conjunct2, THEN conjunct1, rule_format,
          of ?pre "''meta''" ?v "[]"] p c s f
  show "detectPagination (JObj [(''orders'', JArr [JObj [(''id'', JNum 1)]]), (''meta'', ?v)]) =
     Some \<lparr>pg_type = ''page'', pageParam = Some ''page'', offsetParam = None,
           limitParam = Some ''limit'',
           metaPaths = Some [(''currentPage'', ''meta.page''), (''perPage'', ''meta.per_page''),
                             (''total'', ''meta.total'')]\<rparr>"
    by simp
next
  let ?v = "JObj [(''offset'', JNum 0), (''limit'', JNum 10)]"
  let ?pre = "[(''count'', JNum 3)]"
  have p: "\<forall>(k', v') \<in> set ?pre. \<not> accepts v'"
    by (simp add: accepts_def is_container_def)
  have c: "is_container ?v" by (simp add: is_container_def)
  have s: "\<not> page_signature ?v" by (simp add: page_signature_def has_key_def)
  have t: "offset_signature ?v" by (simp add: offset_signature_def has_key_def)
  from detectPagination_first_container
         [of "?pre @ (''paging'', ?v) # []", THEN conjunct2, THEN conjunct2, THEN conjunct1,
          rule_format, of ?pre "''paging''" ?v "[]"] p c s t
  show "detectPagination (JObj [(''count'', JNum 3), (''paging'', ?v)]) =
     Some \<lparr>pg_type = ''offset'', pageParam = None, offsetParam = Some ''offset'',
           limitParam = Some ''limit'',
           metaPaths = Some [(''offset'', ''paging.offset''), (''limit'', ''paging.limit''),
                             (''total'', ''paging.total'')]\<rparr>"
    by simp
next
  let ?xs = "[JObj [(''page'', JObj [(''page'', JNum 1), (''total'', JNum 2)])]]"
  have e: "inferSchema (JArr ?xs) =
     Inr (Some \<lparr>sc_samplePath = ''$'', sc_fields = mergeFieldTypes (slice5 ?xs),
                sc_pagination = None\<rparr>)"
    by (simp add: inferSchema_array)
  have m: "mergeFieldTypes (slice5 ?xs) =
     [\<lparr>field_name = ''page'', field_type = ''object'',
       field_sample = JObj [(''page'', JNum 1), (''total'', JNum 2)]\<rparr>]"
    by (simp add: slice5_def mergeFieldTypes_def merge_sample_def inferFields_def merge_field_def
          map_has_def finish_field_def inferType_def)
  from detectPagination_first_container
         [of "[]", THEN conjunct2, THEN conjunct2, THEN conjunct2, rule_format, OF e]
  have "sc_pagination \<lparr>sc_samplePath = ''$'', sc_fields = mergeFieldTypes (slice5 ?xs),
                sc_pagination = None\<rparr> = None" .
  with e m show "inferSchema (JArr ?xs) =
     Inr (Some \<lparr>sc_samplePath = ''$'',
                sc_fields = [\<lparr>field_name = ''page'', field_type = ''object'',
                              field_sample = JObj [(''page'', JNum 1), (''total'', JNum 2)]\<rparr>],
                sc_pagination = None\<rparr>)"
    by simp
qed

text \<open>
  Claim C5 as stated has every meta path name a key found in the container. With a
  current page and a total but no per-page key, the per-page path names \<open>pageSize\<close>,
  which the container does not have.
\<close>

theorem detectPagination_metaPaths_counterexample:
  "detectPagination (JObj [(''meta'', JObj [(''page'', JNum 1), (''total'', JNum 100)])]) =
     Some \<lparr>pg_type = ''page'', pageParam = Some ''page'', offsetParam = None,
           limitParam = Some ''limit'',
           metaPaths = Some [(''currentPage'', ''meta.page''), (''perPage'', ''meta.pageSize''),
                             (''total'', ''meta.total'')]\<rparr> \<and>
   \<not> has_key ''pageSize'' (JObj [(''page'', JNum 1), (''total'', JNum 100)])"
  by (simp add: detectPagination_obj detect_loop.simps has_key_def)

lemma detect_loop_type:
  "map_option pg_type (detect_loop kvs) =
     (case find (\<lambda>(k, v). accepts v) kvs of
        None \<Rightarrow> None
      | Some (k, v) \<Rightarrow> Some (if page_signature v then ''page'' else ''offset''))"
proof (induction kvs)
  case Nil
  show ?case by simp
next
  case (Cons kv kvs)
  obtain k v where kv: "kv = (k, v)" by (cases kv)
  show ?case
  proof (cases "accepts v")
    case False
    with Cons kv show ?thesis by (simp add: detect_loop_skip)
  next
    case True
    then have c: "is_container v" and s: "page_signature v \<or> offset_signature v"
      by (simp_all add: accepts_def)
    show ?thesis
    proof (cases "page_signature v")
      case True
      with c \<open>accepts v\<close> kv show ?thesis by (simp add: detect_loop_page)
    next
      case False
      with c s \<open>accepts v\<close> kv show ?thesis by (simp add: detect_loop_offset)
    qed
  qed
qed

lemma find_rename:
  "find (\<lambda>(k, v). P v) (map (\<lambda>(k, v). (f k, v)) kvs) =
     map_option (\<lambda>(k, v). (f k, v)) (find (\<lambda>(k, v). P v) kvs)"
  by (induction kvs) auto

text \<open>
  Claim C10. The declared list of container names never enters the result: with any
  list in its place the function returns the same. For an object, pagination is
  detected exactly when some property value, under whatever key, is a non-array object
  whose own keys carry the page-based or the offset-based signature; a single such
  property is detected under every key; and renaming the properties of the object in
  any way leaves the detection and its type as they were.
\<close>

theorem detectPagination_ignores_names:
  "(\<forall>names. detect_with names obj = detectPagination obj) \<and>
   (detectPagination (JObj kvs) \<noteq> None \<longleftrightarrow> (\<exists>v \<in> set (map snd kvs). accepts v)) \<and>
   (\<forall>k v. accepts v \<longrightarrow> detectPagination (JObj [(k, v)]) \<noteq> None) \<and>
   (\<forall>f. map_option pg_type (detectPagination (JObj (map (\<lambda>(k, v). (f k, v)) kvs))) =
        map_option pg_type (detectPagination (JObj kvs)))"
proof (intro conjI allI impI)
  fix names
  show "detect_with names obj = detectPagination obj"
    by (simp add: detectPagination_def detect_with_def)
next
  show "detectPagination (JObj kvs) \<noteq> None \<longleftrightarrow> (\<exists>v \<in> set (map snd kvs). accepts v)"
  proof -
    have "(\<exists>v \<in> set (map snd kvs). accepts v) \<longleftrightarrow> \<not> (\<forall>(k, v) \<in> set kvs. \<not> accepts v)"
      by force
    then show ?thesis by (simp add: detectPagination_obj detect_loop_None)
  qed
next
  fix k v
  assume "accepts v"
  then show "detectPagination (JObj [(k, v)]) \<noteq> None"
    by (simp add: detectPagination_obj detect_loop_None)
next
  fix f :: "string \<Rightarrow> string"
  have "map_option pg_type (detect_loop (map (\<lambda>(k, v). (f k, v)) kvs)) =
        map_option pg_type (detect_loop kvs)"
    by (simp add: detect_loop_type find_rename split: option.splits)
  then show "map_option pg_type (detectPagination (JObj (map (\<lambda>(k, v). (f k, v)) kvs))) =
        map_option pg_type (detectPagination (JObj kvs))"
    by (simp add: detectPagination_obj)
qed

theorem detectPagination_ignores_names_witness:
  "''stats'' \<notin> set paginationKeys \<and>
   accepts (JObj [(''currentPage'', JNum 2), (''totalCount'', JNum 40)]) \<and>
   detectPagination (JObj [(''stats'', JObj [(''currentPage'', JNum 2), (''totalCount'', JNum 40)])])
     \<noteq> None"
proof -
  have a: "accepts (JObj [(''currentPage'', JNum 2), (''totalCount'', JNum 40)])"
    by (simp add: accepts_def is_container_def page_signature_def has_key_def)
  have n: "''stats'' \<notin> set paginationKeys" by (simp add: paginationKeys_def)
  from detectPagination_ignores_names
         [of JNull "[]", THEN conjunct2, THEN conjunct2, THEN conjunct1, rule_format, OF a, of "''stats''"]
       a n
  show ?thesis by simp
qed

section \<open>Properties of schema.js: locating the records\<close>

text \<open>
  Away from the empty property name \<open>inferSchema\<close> locates the records as follows:
  nothing for \<^verbatim>\<open>null\<close>, \<^verbatim>\<open>undefined\<close> and the empty array; for an object, the first
  property holding a non-empty array gives the path and the sampled elements, and an
  object without such a property gives nothing. (The non-empty top-level array is
  \<open>inferSchema_array\<close> above.)
\<close>

lemma inferSchema_nothing:
  "inferSchema JNull = Inr None \<and> inferSchema JUndefined = Inr None \<and>
   inferSchema (JArr []) = Inr None"
  by (simp add: inferSchema_def)

lemma findArrayPath_loop_first:
  "\<forall>(k, v) \<in> set pre. \<not> (isArray v \<and> array_length v > 0) \<Longrightarrow> array \<noteq> [] \<Longrightarrow>
   findArrayPath_loop (pre @ (key, JArr array) # post) = Some key"
  by (induction pre) auto

lemma findArrayPath_loop_none:
  "\<forall>(k, v) \<in> set kvs. \<not> (isArray v \<and> array_length v > 0) \<Longrightarrow>
   findArrayPath_loop kvs = None"
  by (induction kvs) auto

lemma inferSchema_object_found:
  assumes "distinct (map fst kvs)"
    and "kvs = pre @ (key, JArr array) # post"
    and "\<forall>(k, v) \<in> set pre. \<not> (isArray v \<and> array_length v > 0)"
    and "array \<noteq> []"
    and "key \<noteq> []"
  shows "inferSchema (JObj kvs) =
     Inr (Some \<lparr>sc_samplePath = ''$.'' @ key,
                sc_fields = mergeFieldTypes (take (min 5 (length array)) array),
                sc_pagination = detectPagination (JObj kvs)\<rparr>)"
proof -
  from assms(2,3,4) have f: "findArrayPath (JObj kvs) = Some key"
    by (simp add: findArrayPath_def findArrayPath_loop_first)
  from assms(2) have "(key, JArr array) \<in> set kvs" by simp
  with assms(1) have "map_of kvs key = Some (JArr array)" by simp
  then have g: "get_prop (JObj kvs) key = JArr array" by (simp add: get_prop_def)
  from f g assms(5) show ?thesis
    by (simp add: inferSchema_def locate_samples_def slice5_def)
qed

lemma inferSchema_object_none:
  "\<forall>(k, v) \<in> set kvs. \<not> (isArray v \<and> array_length v > 0) \<Longrightarrow>
   inferSchema (JObj kvs) = Inr None"
  by (simp add: inferSchema_def locate_samples_def findArrayPath_def findArrayPath_loop_none)

lemma findArrayPath_empty_key:
  "findArrayPath (JObj [([], JArr [JObj [(''id'', JNum 1)]])]) = Some []"
  by (simp add: findArrayPath_def)

text \<open>
  Claim C4 at the object whose only property has the empty name and holds one record:
  \<open>findArrayPath\<close> returns that name, the empty string, the test \<^verbatim>\<open>if (arrayKey)\<close> reads it
  as nothing found, and \<open>inferSchema\<close> returns \<^verbatim>\<open>null\<close> although the object has a
  property whose value is a non-empty array.
\<close>

theorem inferSchema_empty_key:
  "inferSchema (JObj [([], JArr [JObj [(''id'', JNum 1)]])]) = Inr None"
  by (simp add: inferSchema_def locate_samples_def findArrayPath_def)

section \<open>Properties of fetcher.js\<close>

lemma fetch_loop_exit:
  "\<not> int a \<le> m \<Longrightarrow>
   fetch_loop axios m d a le =
     (case le of
        None \<Rightarrow> (Inl TypeError, [])
      | Some e \<Rightarrow>
          (Inr \<lparr>success = False, status = 0, statusText = None, res_headers = None,
                res_data = None, error = Some (err_message e),
                errorType = Some (or_default (err_code e) ''NETWORK_ERROR'')\<rparr>, []))"
  by (simp add: fetch_loop.simps)

lemma fetch_loop_resolved:
  "int a \<le> m \<Longrightarrow> axios a = Resolved r \<Longrightarrow>
   fetch_loop axios m d a le =
     (Inr \<lparr>success = True, status = resp_status r, statusText = Some (resp_statusText r),
           res_headers = Some (resp_headers r), res_data = Some (resp_data r),
           error = None, errorType = None\<rparr>, [Request a])"
  by (simp add: fetch_loop.simps)

lemma fetch_loop_rejected_response:
  "int a \<le> m \<Longrightarrow> axios a = Rejected e \<Longrightarrow> err_response e = Some r \<Longrightarrow>
   fetch_loop axios m d a le =
     (Inr \<lparr>success = False, status = resp_status r, statusText = Some (resp_statusText r),
           res_headers = Some (resp_headers r), res_data = Some (resp_data r),
           error = Some (err_message e), errorType = None\<rparr>, [Request a])"
  by (simp add: fetch_loop.simps)

lemma fetch_loop_retry:
  "int a \<le> m \<Longrightarrow> axios a = Rejected e \<Longrightarrow> err_response e = None \<Longrightarrow>
   fetch_loop axios m d a le =
     (fst (fetch_loop axios m d (Suc a) (Some e)),
      Request a # (if int (Suc a) \<le> m then [Sleep (d * 2 ^ a)] else []) @
        snd (fetch_loop axios m d (Suc a) (Some e)))"
  by (subst fetch_loop.simps) (simp add: Let_def split: prod.splits)

lemma received_None: "received oc = None \<longleftrightarrow> (\<exists>e. oc = Rejected e \<and> err_response e = None)"
  by (cases oc) auto

lemma fetch_loop_response:
  assumes "a \<le> k" and "int k \<le> m"
    and "\<forall>i. a \<le> i \<and> i < k \<longrightarrow> received (axios i) = None"
    and "received (axios k) = Some r"
  shows "fetch_loop axios m d a le =
     (Inr \<lparr>success = (case axios k of Resolved x \<Rightarrow> True | Rejected e \<Rightarrow> False),
           status = resp_status r, statusText = Some (resp_statusText r),
           res_headers = Some (resp_headers r), res_data = Some (resp_data r),
           error = (case axios k of Resolved x \<Rightarrow> None | Rejected e \<Rightarrow> Some (err_message e)),
           errorType = None\<rparr>,
      concat (map (\<lambda>j. [Request j, Sleep (d * 2 ^ j)]) [a..<k]) @ [Request k])"
  using assms
proof (induction "k - a" arbitrary: a le)
  case 0
  then have ak: "a = k" by simp
  show ?case
  proof (cases "axios k")
    case (Resolved x)
    with 0 ak show ?thesis by (simp add: fetch_loop_resolved)
  next
    case (Rejected e)
    with 0 ak show ?thesis by (simp add: fetch_loop_rejected_response)
  qed
next
  case (Suc n)
  then have lt: "a < k" by simp
  with Suc.prems have "received (axios a) = None" by simp
  then obtain e where e: "axios a = Rejected e" "err_response e = None"
    by (auto simp: received_None)
  from lt Suc.prems have am: "int a \<le> m" "int (Suc a) \<le> m" by simp_all
  have ih: "fetch_loop axios m d (Suc a) (Some e) =
     (Inr \<lparr>success = (case axios k of Resolved x \<Rightarrow> True | Rejected e \<Rightarrow> False),
           status = resp_status r, statusText = Some (resp_statusText r),
           res_headers = Some (resp_headers r), res_data = Some (resp_data r),
           error = (case axios k of Resolved x \<Rightarrow> None | Rejected e \<Rightarrow> Some (err_message e)),
           errorType = None\<rparr>,
      concat (map (\<lambda>j. [Request j, Sleep (d * 2 ^ j)]) [Suc a..<k]) @ [Request k])"
    using Suc.hyps(2) lt Suc.prems by (intro Suc.hyps(1)) auto
  from lt have up: "[a..<k] = a # [Suc a..<k]" by (simp add: upt_conv_Cons)
  have "fetch_loop axios m d a le =
     (fst (fetch_loop axios m d (Suc a) (Some e)),
      Request a # (if int (Suc a) \<le> m then [Sleep (d * 2 ^ a)] else []) @
        snd (fetch_loop axios m d (Suc a) (Some e)))"
    using am(1) e by (rule fetch_loop_retry)
  then show ?case
    using am(2) by (simp add: ih up)
qed

lemma fetch_loop_all_fail:
  assumes "int a \<le> m"
    and "\<forall>i. a \<le> i \<and> int i \<le> m \<longrightarrow> received (axios i) = None"
    and "axios (nat m) = Rejected e"
  shows "fetch_loop axios m d a le =
     (Inr \<lparr>success = False, status = 0, statusText = None, res_headers = None,
           res_data = None, error = Some (err_message e),
           errorType = Some (or_default (err_code e) ''NETWORK_ERROR'')\<rparr>,
      concat (map (\<lambda>j. [Request j, Sleep (d * 2 ^ j)]) [a..<nat m]) @ [Request (nat m)])"
  using assms
proof (induction "nat m - a" arbitrary: a le)
  case 0
  then have am: "a = nat m" by simp
  from "0.prems"(1,2) have "received (axios a) = None" by blast
  with am "0.prems"(3) have e: "err_response e = None" by simp
  have ex: "\<not> int (Suc a) \<le> m" using am by simp
  have ax: "axios a = Rejected e" using am "0.prems"(3) by simp
  have "fetch_loop axios m d a le =
     (fst (fetch_loop axios m d (Suc a) (Some e)),
      Request a # (if int (Suc a) \<le> m then [Sleep (d * 2 ^ a)] else []) @
        snd (fetch_loop axios m d (Suc a) (Some e)))"
    using "0.prems"(1) ax e by (rule fetch_loop_retry)
  moreover have "fetch_loop axios m d (Suc a) (Some e) =
     (Inr \<lparr>success = False, status = 0, statusText = None, res_headers = None,
           res_data = None, error = Some (err_message e),
           errorType = Some (or_default (err_code e) ''NETWORK_ERROR'')\<rparr>, [])"
    using ex by (simp add: fetch_loop_exit)
  ultimately have "fetch_loop axios m d a le =
     (Inr \<lparr>success = False, status = 0, statusText = None, res_headers = None,
           res_data = None, error = Some (err_message e),
           errorType = Some (or_default (err_code e) ''NETWORK_ERROR'')\<rparr>,
      Request a # (if int (Suc a) \<le> m then [Sleep (d * 2 ^ a)] else []))"
    by simp
  then show ?case
    using ex am by simp
next
  case (Suc n)
  then have lt: "a < nat m" by simp
  with Suc.prems have "received (axios a) = None" by simp
  then obtain e' where e': "axios a = Rejected e'" "err_response e' = None"
    by (auto simp: received_None)
  from lt have am: "int a \<le> m" "int (Suc a) \<le> m" by simp_all
  have ih: "fetch_loop axios m d (Suc a) (Some e') =
     (Inr \<lparr>success = False, status = 0, statusText = None, res_headers = None,
           res_data = None, error = Some (err_message e),
           errorType = Some (or_default (err_code e) ''NETWORK_ERROR'')\<rparr>,
      concat (map (\<lambda>j. [Request j, Sleep (d * 2 ^ j)]) [Suc a..<nat m]) @ [Request (nat m)])"
    using Suc.hyps(2) am Suc.prems by (intro Suc.hyps(1)) auto
  from lt have up: "[a..<nat m] = a # [Suc a..<nat m]" by (simp add: upt_conv_Cons)
  have "fetch_loop axios m d a le =
     (fst (fetch_loop axios m d (Suc a) (Some e')),
      Request a # (if int (Suc a) \<le> m then [Sleep (d * 2 ^ a)] else []) @
        snd (fetch_loop axios m d (Suc a) (Some e')))"
    using am(1) e' by (rule fetch_loop_retry)
  then show ?case
    using am(2) by (simp add: ih up)
qed

lemma requests_append: "requests (xs @ ys) = requests xs @ requests ys"
  by (induction xs rule: requests.induct) auto

lemma delays_append: "delays (xs @ ys) = delays xs @ delays ys"
  by (induction xs rule: delays.induct) auto

lemma requests_backoff:
  "requests (concat (map (\<lambda>j. [Request j, Sleep (d * 2 ^ j)]) [a..<k]) @ [Request k]) = [a..<k] @ [k]"
  by (induction k) (auto simp: requests_append)

lemma delays_backoff:
  "delays (concat (map (\<lambda>j. [Request j, Sleep (d * 2 ^ j)]) [a..<k]) @ [Request k]) =
     map (\<lambda>j. d * 2 ^ j) [a..<k]"
  by (induction k) (auto simp: delays_append)


lemma Request_in_requests: "Request i \<in> set evs \<longleftrightarrow> i \<in> set (requests evs)"
  by (induction evs rule: requests.induct) auto

lemma fetchWithRetry_at_response:
  assumes i: "Request i \<in> set (snd (fetchWithRetry axios m d))"
    and r: "received (axios i) = Some r"
  shows "fetchWithRetry axios m d =
     (Inr \<lparr>success = (case axios i of Resolved x \<Rightarrow> True | Rejected e \<Rightarrow> False),
           status = resp_status r, statusText = Some (resp_statusText r),
           res_headers = Some (resp_headers r), res_data = Some (resp_data r),
           error = (case axios i of Resolved x \<Rightarrow> None | Rejected e \<Rightarrow> Some (err_message e)),
           errorType = None\<rparr>,
      concat (map (\<lambda>j. [Request j, Sleep (d * 2 ^ j)]) [0..<i]) @ [Request i])"
proof (cases "0 \<le> m")
  case False
  then have "snd (fetchWithRetry axios m d) = []"
    by (simp add: fetchWithRetry_def fetch_loop_exit)
  with i show ?thesis by simp
next
  case True
  show ?thesis
  proof (cases "\<exists>k \<le> nat m. received (axios k) \<noteq> None")
    case False
    then have none: "\<forall>j. 0 \<le> j \<and> int j \<le> m \<longrightarrow> received (axios j) = None"
      by auto
    with True have "received (axios (nat m)) = None" by simp
    then obtain e where e: "axios (nat m) = Rejected e" by (auto simp: received_None)
    from True have "int 0 \<le> m" by simp
    from fetch_loop_all_fail [OF this none e]
    have "snd (fetchWithRetry axios m d) =
      concat (map (\<lambda>j. [Request j, Sleep (d * 2 ^ j)]) [0..<nat m]) @ [Request (nat m)]"
      by (simp add: fetchWithRetry_def)
    with i have "i \<in> set ([0..<nat m] @ [nat m])"
      by (simp only: Request_in_requests requests_backoff)
    then have "i \<le> nat m" by auto
    with False r show ?thesis by auto
  next
    case True
    define k where "k = (LEAST k. received (axios k) \<noteq> None)"
    from True obtain k0 where k0: "k0 \<le> nat m" "received (axios k0) \<noteq> None" by blast
    from k0(2) have pk: "received (axios k) \<noteq> None"
      unfolding k_def by (rule LeastI)
    have "k \<le> k0" unfolding k_def using k0(2) by (rule Least_le)
    with k0(1) \<open>0 \<le> m\<close> have km: "int k \<le> m" by simp
    have below: "\<forall>j. 0 \<le> j \<and> j < k \<longrightarrow> received (axios j) = None"
      unfolding k_def using not_less_Least by blast
    from pk obtain rk where rk: "received (axios k) = Some rk" by auto
    have "0 \<le> k" by simp
    from fetch_loop_response [OF this km below rk]
    have run: "fetchWithRetry axios m d =
     (Inr \<lparr>success = (case axios k of Resolved x \<Rightarrow> True | Rejected e \<Rightarrow> False),
           status = resp_status rk, statusText = Some (resp_statusText rk),
           res_headers = Some (resp_headers rk), res_data = Some (resp_data rk),
           error = (case axios k of Resolved x \<Rightarrow> None | Rejected e \<Rightarrow> Some (err_message e)),
           errorType = None\<rparr>,
      concat (map (\<lambda>j. [Request j, Sleep (d * 2 ^ j)]) [0..<k]) @ [Request k])"
      by (simp add: fetchWithRetry_def)
    with i have "i \<in> set ([0..<k] @ [k])"
      by (simp only: Request_in_requests requests_backoff snd_conv)
    then have "i \<le> k" by auto
    moreover from r below have "\<not> i < k" by auto
    ultimately have "i = k" by simp
    with run r rk show ?thesis by simp
  qed
qed

text \<open>
  The status of the result is the status of the response that an attempt received.
\<close>

lemma fetchWithRetry_status_of_response:
  "Request i \<in> set (snd (fetchWithRetry axios maxRetries initialDelay)) \<Longrightarrow>
   received (axios i) = Some r \<Longrightarrow>
   \<exists>res. fst (fetchWithRetry axios maxRetries initialDelay) = Inr res \<and>
      status res = resp_status r"
  by (simp add: fetchWithRetry_at_response [of i axios maxRetries initialDelay r])

lemma run_not_found: "fetchWithRetry not_found_server 2 500 =
     (Inr \<lparr>success = True, status = 404, statusText = Some ''Not Found'',
           res_headers = Some [], res_data = Some JNull, error = None, errorType = None\<rparr>,
      [Request 0])"
  by (simp add: fetchWithRetry_def fetch_loop_resolved not_found_server_def)

lemma run_unreachable: "fetchWithRetry unreachable_host 2 500 =
     (Inr \<lparr>success = False, status = 0, statusText = None,
           res_headers = None, res_data = None, error = Some ''connect ECONNREFUSED'',
           errorType = Some ''NETWORK_ERROR''\<rparr>,
      [Request 0, Sleep 500, Request 1, Sleep 1000, Request 2])"
  by code_simp

text \<open>
  Claim C1 at a server that answers the first request with 404 Not Found: the attempt
  receives a response with a non-2xx status, and \<open>fetchWithRetry\<close> returns the status
  404 with \<open>success = true\<close>, where the claim has \<open>success = false\<close>.
\<close>

theorem fetchWithRetry_not_found_success:
  "received (not_found_server 0) =
     Some \<lparr>resp_status = 404, resp_statusText = ''Not Found'', resp_headers = [],
           resp_data = JNull\<rparr> \<and>
   fetchWithRetry not_found_server 2 500 =
     (Inr \<lparr>success = True, status = 404, statusText = Some ''Not Found'',
           res_headers = Some [], res_data = Some JNull, error = None, errorType = None\<rparr>,
      [Request 0])"
  by (simp add: run_not_found) (simp add: not_found_server_def)

lemma backoff_delays:
  "map (\<lambda>j. d * 2 ^ j) [0..<n] = map (\<lambda>attempt. d * 2 ^ (attempt - 1)) [1..<n + 1]"
proof -
  have "[1..<n + 1] = map Suc [0..<n]" by (simp add: map_Suc_upt)
  then show ?thesis by (simp add: comp_def)
qed

text \<open>
  Claim C2. For a retry count \<open>maxRetries\<close> (a number of retries: an integer that is
  not negative) and any \<open>initialDelay\<close>, if none of the attempts \<open>0\<close> to \<open>maxRetries\<close>
  receives a response, \<open>fetchWithRetry\<close> returns (it does not throw) the result with
  \<open>success = false\<close>, \<open>status = 0\<close>, the message of the last error and its code, or
  \<open>NETWORK_ERROR\<close> when it has none, as the error type. It sends exactly
  \<open>maxRetries + 1\<close> requests and sleeps \<open>initialDelay * 2 ^ (attempt - 1)\<close> before the
  retry that follows failed attempt number \<open>attempt\<close>, for \<open>attempt\<close> from 1 to
  \<open>maxRetries\<close>, and at no other time.
\<close>

theorem fetchWithRetry_exhausts_retries:
  assumes "0 \<le> maxRetries"
    and "\<forall>i \<le> nat maxRetries. received (axios i) = None"
  shows "\<exists>e. axios (nat maxRetries) = Rejected e \<and>
     fetchWithRetry axios maxRetries initialDelay =
       (Inr \<lparr>success = False, status = 0, statusText = None, res_headers = None,
             res_data = None, error = Some (err_message e),
             errorType = Some (or_default (err_code e) ''NETWORK_ERROR'')\<rparr>,
        concat (map (\<lambda>j. [Request j, Sleep (initialDelay * 2 ^ j)]) [0..<nat maxRetries]) @
          [Request (nat maxRetries)]) \<and>
     requests (snd (fetchWithRetry axios maxRetries initialDelay)) = [0..<nat maxRetries + 1] \<and>
     length (requests (snd (fetchWithRetry axios maxRetries initialDelay))) = nat maxRetries + 1 \<and>
     delays (snd (fetchWithRetry axios maxRetries initialDelay)) =
       map (\<lambda>attempt. initialDelay * 2 ^ (attempt - 1)) [1..<nat maxRetries + 1]"
proof -
  from assms have "received (axios (nat maxRetries)) = None" by simp
  then obtain e where e: "axios (nat maxRetries) = Rejected e"
    by (auto simp: received_None)
  from assms(1) have z: "int 0 \<le> maxRetries" by simp
  from assms have none: "\<forall>i. 0 \<le> i \<and> int i \<le> maxRetries \<longrightarrow> received (axios i) = None"
    by auto
  from fetch_loop_all_fail [OF z none e]
  have run: "fetchWithRetry axios maxRetries initialDelay =
       (Inr \<lparr>success = False, status = 0, statusText = None, res_headers = None,
             res_data = None, error = Some (err_message e),
             errorType = Some (or_default (err_code e) ''NETWORK_ERROR'')\<rparr>,
        concat (map (\<lambda>j. [Request j, Sleep (initialDelay * 2 ^ j)]) [0..<nat maxRetries]) @
          [Request (nat maxRetries)])"
    by (simp add: fetchWithRetry_def)
  have rq: "requests (snd (fetchWithRetry axios maxRetries initialDelay)) = [0..<nat maxRetries + 1]"
    by (simp only: run snd_conv requests_backoff) simp
  have dl: "delays (snd (fetchWithRetry axios maxRetries initialDelay)) =
       map (\<lambda>attempt. initialDelay * 2 ^ (attempt - 1)) [1..<nat maxRetries + 1]"
    by (simp only: run snd_conv delays_backoff backoff_delays)
  from rq have "length (requests (snd (fetchWithRetry axios maxRetries initialDelay))) = nat maxRetries + 1"
    by simp
  with e run rq dl show ?thesis by blast
qed

theorem fetchWithRetry_exhausts_retries_witness:
  "(0::int) \<le> 2 \<and> received (unreachable_host 0) = None \<and>
   received (unreachable_host 1) = None \<and> received (unreachable_host 2) = None \<and>
   fetchWithRetry unreachable_host 2 500 =
     (Inr \<lparr>success = False, status = 0, statusText = None, res_headers = None,
           res_data = None, error = Some ''connect ECONNREFUSED'',
           errorType = Some ''NETWORK_ERROR''\<rparr>,
      [Request 0, Sleep 500, Request 1, Sleep 1000, Request 2]) \<and>
   requests (snd (fetchWithRetry unreachable_host 2 500)) = [0, 1, 2] \<and>
   delays (snd (fetchWithRetry unreachable_host 2 500)) = [500, 1000]"
proof -
  have h1: "(0::int) \<le> 2" by simp
  have h2: "\<forall>i \<le> nat 2. received (unreachable_host i) = None"
    by (simp add: unreachable_host_def)
  have u: "[0..<nat 2] = [0, 1]" "[0..<nat 2 + 1] = [0, 1, 2]" "[1..<nat 2 + 1] = [1, 2]"
    by (simp_all add: upt_rec)
  from fetchWithRetry_exhausts_retries [OF h1 h2, of 500]
  obtain e where e: "unreachable_host (nat 2) = Rejected e"
    and run: "fetchWithRetry unreachable_host 2 500 =
       (Inr \<lparr>success = False, status = 0, statusText = None, res_headers = None,
             res_data = None, error = Some (err_message e),
             errorType = Some (or_default (err_code e) ''NETWORK_ERROR'')\<rparr>,
        concat (map (\<lambda>j. [Request j, Sleep (500 * 2 ^ j)]) [0..<nat 2]) @ [Request (nat 2)])"
    and rq: "requests (snd (fetchWithRetry unreachable_host 2 500)) = [0..<nat 2 + 1]"
    and dl: "delays (snd (fetchWithRetry unreachable_host 2 500)) =
       map (\<lambda>attempt. 500 * 2 ^ (attempt - 1)) [1..<nat 2 + 1]"
    by blast
  from e have e': "e = \<lparr>err_message = ''connect ECONNREFUSED'', err_code = None, err_response = None\<rparr>"
    by (simp add: unreachable_host_def)
  have "fetchWithRetry unreachable_host 2 500 =
     (Inr \<lparr>success = False, status = 0, statusText = None, res_headers = None,
           res_data = None, error = Some ''connect ECONNREFUSED'',
           errorType = Some ''NETWORK_ERROR''\<rparr>,
      [Request 0, Sleep 500, Request 1, Sleep 1000, Request 2])"
    unfolding run e' u by (simp add: or_default_def)
  moreover have "requests (snd (fetchWithRetry unreachable_host 2 500)) = [0, 1, 2]"
    unfolding rq u ..
  moreover have "delays (snd (fetchWithRetry unreachable_host 2 500)) = [500, 1000]"
    unfolding dl u by simp
  moreover have "received (unreachable_host 0) = None" "received (unreachable_host 1) = None"
    "received (unreachable_host 2) = None"
    by (simp_all add: unreachable_host_def)
  ultimately show ?thesis using h1 by blast
qed

text \<open>
  Claim C3. If request number \<open>i\<close> of a call to \<open>fetchWithRetry\<close> receives a response
  (a fulfilled promise, with any status, or a rejection that carries a response), that
  request is the last event of the call: the requests before it are those numbered
  \<open>0\<close> to \<open>i - 1\<close>, no request with a higher number is ever sent, and no delay follows.
\<close>

theorem fetchWithRetry_no_retry_after_response:
  "Request i \<in> set (snd (fetchWithRetry axios maxRetries initialDelay)) \<and>
   received (axios i) \<noteq> None \<longrightarrow>
     (\<exists>before. snd (fetchWithRetry axios maxRetries initialDelay) = before @ [Request i] \<and>
        requests before = [0..<i]) \<and>
     (\<forall>j. Request j \<in> set (snd (fetchWithRetry axios maxRetries initialDelay)) \<longrightarrow> j \<le> i)"
proof
  assume a: "Request i \<in> set (snd (fetchWithRetry axios maxRetries initialDelay)) \<and>
    received (axios i) \<noteq> None"
  then obtain r where r: "received (axios i) = Some r" by auto
  let ?before = "concat (map (\<lambda>j. [Request j, Sleep (initialDelay * 2 ^ j)]) [0..<i])"
  from a r have "snd (fetchWithRetry axios maxRetries initialDelay) = ?before @ [Request i]"
    by (simp add: fetchWithRetry_at_response [of i axios maxRetries initialDelay r])
  moreover have "requests (?before @ [Request i]) = [0..<i] @ [i]"
    by (rule requests_backoff)
  then have rb: "requests ?before = [0..<i]"
    by (simp add: requests_append)
  ultimately show "(\<exists>before. snd (fetchWithRetry axios maxRetries initialDelay) = before @ [Request i] \<and>
        requests before = [0..<i]) \<and>
     (\<forall>j. Request j \<in> set (snd (fetchWithRetry axios maxRetries initialDelay)) \<longrightarrow> j \<le> i)"
    by (auto simp: Request_in_requests requests_append)
qed

theorem fetchWithRetry_no_retry_after_response_witness:
  "Request 1 \<in> set (snd (fetchWithRetry flaky_server 5 500)) \<and>
   received (flaky_server 1) \<noteq> None \<and>
   (\<exists>before. snd (fetchWithRetry flaky_server 5 500) = before @ [Request 1] \<and>
      requests before = [0]) \<and>
   snd (fetchWithRetry flaky_server 5 500) = [Request 0, Sleep 500, Request 1]"
proof -
  have run: "snd (fetchWithRetry flaky_server 5 500) = [Request 0, Sleep 500, Request 1]"
    by code_simp
  have a: "Request 1 \<in> set (snd (fetchWithRetry flaky_server 5 500))"
    by (simp add: run)
  have b: "received (flaky_server 1) \<noteq> None" by (simp add: flaky_server_def)
  from fetchWithRetry_no_retry_after_response [of 1 flaky_server 5 500, rule_format, OF conjI, OF a b]
  have "\<exists>before. snd (fetchWithRetry flaky_server 5 500) = before @ [Request 1] \<and>
      requests before = [0]"
    by simp
  with a b run show ?thesis by blast
qed

section \<open>Properties of schema.js: merging field types\<close>

lemma set_first_seen: "set (first_seen xs) = set xs"
  by (induction xs) auto

lemma distinct_first_seen: "distinct (first_seen xs)"
  by (induction xs) (auto simp: distinct_removeAll)

lemma first_seen_snoc:
  "first_seen (xs @ [x]) = (if x \<in> set xs then first_seen xs else first_seen xs @ [x])"
  by (induction xs) auto

lemma fold_merge_sample:
  "fold merge_sample ss m = fold merge_field (concat (map inferFields ss)) m"
  by (induction ss arbitrary: m) (simp_all add: merge_sample_def)

lemma map_fst_update:
  "map fst (map (\<lambda>(k, info). if k = n then (k, g info) else (k, info)) m) = map fst m"
  by (induction m) auto

lemma entry_of_other:
  "k \<noteq> field_name f \<Longrightarrow> entry_of fs k info \<Longrightarrow> entry_of (fs @ [f]) k info"
  by (simp add: entry_of_def)

lemma entry_of_same:
  "entry_of fs (field_name f) info \<Longrightarrow>
   entry_of (fs @ [f]) (field_name f)
     (info\<lparr>info_types := set_add (info_types info) (field_type f)\<rparr>)"
  by (auto simp: entry_of_def set_add_def)

lemma entry_of_new:
  "field_name f \<notin> set (map field_name fs) \<Longrightarrow>
   entry_of (fs @ [f]) (field_name f)
     \<lparr>info_name = field_name f, info_types = [field_type f], info_sample = field_sample f\<rparr>"
proof -
  assume "field_name f \<notin> set (map field_name fs)"
  then have "filter (\<lambda>g. field_name g = field_name f) fs = []"
    by (induction fs) auto
  then show ?thesis by (simp add: entry_of_def)
qed

lemma fold_merge_field:
  "map fst (fold merge_field fs []) = first_seen (map field_name fs) \<and>
   (\<forall>(k, info) \<in> set (fold merge_field fs []). entry_of fs k info)"
proof (induction fs rule: rev_induct)
  case Nil
  show ?case by simp
next
  case (snoc f fs)
  let ?m = "fold merge_field fs []"
  let ?n = "field_name f"
  from snoc have keys: "map fst ?m = first_seen (map field_name fs)"
    and inv: "\<forall>(k, info) \<in> set ?m. entry_of fs k info"
    by simp_all
  have step: "fold merge_field (fs @ [f]) [] = merge_field f ?m" by simp
  from keys have kset: "set (map fst ?m) = set (map field_name fs)"
    by (simp add: set_first_seen)
  show ?case
  proof (cases "?n \<in> set (map field_name fs)")
    case True
    with kset have has: "map_has ?m ?n" by (simp add: map_has_def)
    then have mf: "merge_field f ?m =
      map (\<lambda>(k, info). if k = ?n
             then (k, info\<lparr>info_types := set_add (info_types info) (field_type f)\<rparr>)
             else (k, info)) ?m"
      by (simp add: merge_field_def)
    have "map fst (merge_field f ?m) = map fst ?m"
      unfolding mf by (rule map_fst_update)
    with True have k1: "map fst (merge_field f ?m) = first_seen (map field_name (fs @ [f]))"
      by (simp add: keys first_seen_snoc)
    have k2: "\<forall>(k, info) \<in> set (merge_field f ?m). entry_of (fs @ [f]) k info"
    proof (clarify)
      fix k info'
      assume "(k, info') \<in> set (merge_field f ?m)"
      then obtain info where in_m: "(k, info) \<in> set ?m"
        and upd: "info' = (if k = ?n
                           then info\<lparr>info_types := set_add (info_types info) (field_type f)\<rparr>
                           else info)"
        unfolding mf by (auto split: if_splits)
      from inv in_m have e: "entry_of fs k info" by auto
      show "entry_of (fs @ [f]) k info'"
      proof (cases "k = ?n")
        case True
        with e upd show ?thesis by (simp add: entry_of_same)
      next
        case False
        with e upd show ?thesis by (simp add: entry_of_other)
      qed
    qed
    from k1 k2 show ?thesis unfolding step by (rule conjI)
  next
    case False
    with kset have has: "\<not> map_has ?m ?n" by (simp add: map_has_def)
    then have mf: "merge_field f ?m =
      ?m @ [(?n, \<lparr>info_name = ?n, info_types = [field_type f], info_sample = field_sample f\<rparr>)]"
      by (simp add: merge_field_def)
    have k1: "map fst (merge_field f ?m) = first_seen (map field_name (fs @ [f]))"
      using False by (simp add: mf keys first_seen_snoc)
    have k2: "\<forall>(k, info) \<in> set (merge_field f ?m). entry_of (fs @ [f]) k info"
    proof (clarify)
      fix k info
      assume "(k, info) \<in> set (merge_field f ?m)"
      then consider (old) "(k, info) \<in> set ?m"
        | (new) "k = ?n" "info = \<lparr>info_name = ?n, info_types = [field_type f],
                                   info_sample = field_sample f\<rparr>"
        unfolding mf by auto
      then show "entry_of (fs @ [f]) k info"
      proof cases
        case old
        then have "k \<in> set (map fst ?m)" by force
        then have "k \<in> set (map field_name fs)" by (simp only: kset)
        with False have "k \<noteq> ?n" by blast
        moreover from inv old have "entry_of fs k info" by auto
        ultimately show ?thesis by (rule entry_of_other)
      next
        case new
        with False show ?thesis by (simp add: entry_of_new)
      qed
    qed
    from k1 k2 show ?thesis unfolding step by (rule conjI)
  qed
qed


lemma not_single_case:
  "length ts \<noteq> 1 \<Longrightarrow> (case ts of [] \<Rightarrow> X | [t] \<Rightarrow> t | t # u # us \<Rightarrow> X) = X"
  by (auto split: list.splits)

lemma sort_same_set:
  fixes ts us :: "string list"
  shows "distinct ts \<Longrightarrow> set ts = set us \<Longrightarrow> sort ts = sort (remdups us)"
  by (rule sorted_distinct_set_unique) simp_all

lemma finish_field_entry:
  assumes "entry_of fs k info"
  shows "field_name (finish_field info) = k"
    and "filter (\<lambda>f. field_name f = k) fs \<noteq> []"
    and "field_sample (finish_field info) = field_sample (hd (filter (\<lambda>f. field_name f = k) fs))"
    and "set (map field_type (filter (\<lambda>f. field_name f = k) fs)) = {t} \<Longrightarrow>
           field_type (finish_field info) = t"
    and "card (set (map field_type (filter (\<lambda>f. field_name f = k) fs))) \<noteq> 1 \<Longrightarrow>
           field_type (finish_field info) =
             join ''|'' (sort (remdups (map field_type (filter (\<lambda>f. field_name f = k) fs))))"
proof -
  let ?tags = "map field_type (filter (\<lambda>f. field_name f = k) fs)"
  from assms have d: "distinct (info_types info)" and s: "set (info_types info) = set ?tags"
    by (simp_all add: entry_of_def)
  from assms show "field_name (finish_field info) = k"
    by (simp add: entry_of_def finish_field_def Let_def)
  from assms show "filter (\<lambda>f. field_name f = k) fs \<noteq> []"
    by (simp add: entry_of_def)
  from assms show "field_sample (finish_field info) =
      field_sample (hd (filter (\<lambda>f. field_name f = k) fs))"
    by (simp add: entry_of_def finish_field_def Let_def)
  show "field_type (finish_field info) = t" if "set ?tags = {t}"
  proof -
    from that s have "set (info_types info) = {t}" by simp
    with d have "info_types info = [t]"
      by (metis distinct.simps(2) distinct_singleton empty_iff insert_iff list.exhaust list.set(1)
            list.simps(15) singletonD)
    then show ?thesis by (simp add: finish_field_def Let_def)
  qed
  show "field_type (finish_field info) = join ''|'' (sort (remdups ?tags))"
    if "card (set ?tags) \<noteq> 1"
  proof -
    from d have "length (info_types info) = card (set (info_types info))"
      by (simp add: distinct_card)
    with that s have "length (info_types info) \<noteq> 1" by simp
    then have "field_type (finish_field info) = join ''|'' (sort (info_types info))"
      by (auto simp: finish_field_def Let_def split: list.splits)
    also from d s have "sort (info_types info) = sort (remdups ?tags)"
      by (rule sort_same_set)
    finally show ?thesis .
  qed
qed

lemma mergeFieldTypes_fold:
  "mergeFieldTypes samples =
     map (\<lambda>(k, info). finish_field info)
       (fold merge_field (concat (map inferFields samples)) [])"
  by (simp add: mergeFieldTypes_def fold_merge_sample)

lemma map_finish_names:
  "\<forall>(k, info) \<in> set m. entry_of fs k info \<Longrightarrow>
   map field_name (map (\<lambda>(k, info). finish_field info) m) = map fst m"
  by (induction m) (auto simp: finish_field_entry(1))

text \<open>
  Claim C6. Let the fields of a list of samples be the fields \<open>inferFields\<close> reads from
  each sample, in the order of the samples. \<open>mergeFieldTypes\<close> returns one entry per
  distinct field name, in the order in which the names first occur among those fields,
  whichever sample each occurrence is from. For each entry, with \<open>occ\<close> the fields of
  its name and \<open>tags\<close> their types: \<open>occ\<close> is not empty; the entry's sample value is
  that of the first field in \<open>occ\<close>; if every field in \<open>occ\<close> has the same tag, that
  tag is the entry's type; otherwise the type is the distinct tags, sorted in the
  lexicographic order of strings and joined with \<open>|\<close>.
\<close>

theorem mergeFieldTypes_merges:
  "map field_name (mergeFieldTypes samples) =
     first_seen (map field_name (concat (map inferFields samples))) \<and>
   distinct (map field_name (mergeFieldTypes samples)) \<and>
   (\<forall>e \<in> set (mergeFieldTypes samples). \<forall>occ tags.
      occ = filter (\<lambda>f. field_name f = field_name e) (concat (map inferFields samples)) \<and>
      tags = map field_type occ \<longrightarrow>
        occ \<noteq> [] \<and>
        field_sample e = field_sample (hd occ) \<and>
        (\<forall>t. set tags = {t} \<longrightarrow> field_type e = t) \<and>
        (card (set tags) \<noteq> 1 \<longrightarrow> field_type e = join ''|'' (sort (remdups tags))))"
proof -
  let ?all = "concat (map inferFields samples)"
  let ?m = "fold merge_field ?all []"
  from fold_merge_field [of ?all]
  have keys: "map fst ?m = first_seen (map field_name ?all)"
    and inv: "\<forall>(k, info) \<in> set ?m. entry_of ?all k info"
    by simp_all
  have names: "map field_name (mergeFieldTypes samples) = first_seen (map field_name ?all)"
    using inv by (simp only: mergeFieldTypes_fold map_finish_names keys)
  then have dist: "distinct (map field_name (mergeFieldTypes samples))"
    by (simp add: distinct_first_seen)
  have each: "occ \<noteq> [] \<and>
        field_sample e = field_sample (hd occ) \<and>
        (\<forall>t. set tags = {t} \<longrightarrow> field_type e = t) \<and>
        (card (set tags) \<noteq> 1 \<longrightarrow> field_type e = join ''|'' (sort (remdups tags)))"
    if e: "e \<in> set (mergeFieldTypes samples)"
      and o: "occ = filter (\<lambda>f. field_name f = field_name e) ?all \<and> tags = map field_type occ"
    for e occ tags
  proof -
    from e obtain k info where in_m: "(k, info) \<in> set ?m" and fe: "e = finish_field info"
      unfolding mergeFieldTypes_fold by auto
    from inv in_m have en: "entry_of ?all k info" by auto
    from finish_field_entry(1) [OF en] fe have k: "field_name e = k" by simp
    from o k have occ: "occ = filter (\<lambda>f. field_name f = k) ?all"
      and tags: "tags = map field_type (filter (\<lambda>f. field_name f = k) ?all)"
      by simp_all
    show ?thesis
      unfolding occ tags fe
      using finish_field_entry(2-5) [OF en] by blast
  qed
  from names dist each show ?thesis by blast
qed

lemma two_samples_fields:
  "concat (map inferFields two_samples) =
     [\<lparr>field_name = ''a'', field_type = ''integer'', field_sample = JNum 1\<rparr>,
      \<lparr>field_name = ''b'', field_type = ''string'', field_sample = JStr ''x''\<rparr>,
      \<lparr>field_name = ''b'', field_type = ''number'', field_sample = JNum (1 / 2)\<rparr>,
      \<lparr>field_name = ''c'', field_type = ''boolean'', field_sample = JBool True\<rparr>,
      \<lparr>field_name = ''a'', field_type = ''string'', field_sample = JStr ''k''\<rparr>]"
  by code_simp

lemma two_samples_merged:
  "mergeFieldTypes two_samples =
     [\<lparr>field_name = ''a'', field_type = ''integer|string'', field_sample = JNum 1\<rparr>,
      \<lparr>field_name = ''b'', field_type = ''number|string'', field_sample = JStr ''x''\<rparr>,
      \<lparr>field_name = ''c'', field_type = ''boolean'', field_sample = JBool True\<rparr>]"
  by code_simp


theorem mergeFieldTypes_merges_witness:
  "map field_name (mergeFieldTypes two_samples) = [''a'', ''b'', ''c''] \<and>
   field_sample (mergeFieldTypes two_samples ! 0) = JNum 1 \<and>
   field_type (mergeFieldTypes two_samples ! 0) = ''integer|string'' \<and>
   field_type (mergeFieldTypes two_samples ! 2) = ''boolean''"
proof -
  let ?all = "concat (map inferFields two_samples)"
  let ?r = "mergeFieldTypes two_samples"
  note t = mergeFieldTypes_merges [of two_samples]
  from t have "map field_name ?r = first_seen (map field_name ?all)" by blast
  then have names: "map field_name ?r = [''a'', ''b'', ''c'']"
    by (simp add: two_samples_fields)
  then have "length (map field_name ?r) = 3" by simp
  then have len: "length ?r = 3" by simp
  from len have m0: "?r ! 0 \<in> set ?r" and m2: "?r ! 2 \<in> set ?r" by simp_all
  from names len have n0: "field_name (?r ! 0) = ''a''"
    by (metis nth_map nth_Cons_0 zero_less_numeral)
  have "map field_name ?r ! 2 = ''c''" by (simp add: names)
  with len have n2: "field_name (?r ! 2) = ''c''" by simp
  have o0: "filter (\<lambda>f. field_name f = ''a'') ?all =
      [\<lparr>field_name = ''a'', field_type = ''integer'', field_sample = JNum 1\<rparr>,
       \<lparr>field_name = ''a'', field_type = ''string'', field_sample = JStr ''k''\<rparr>]"
    by (simp add: two_samples_fields)
  have o2: "filter (\<lambda>f. field_name f = ''c'') ?all =
      [\<lparr>field_name = ''c'', field_type = ''boolean'', field_sample = JBool True\<rparr>]"
    by (simp add: two_samples_fields)
  have j: "join ''|'' (sort (remdups [''integer'', ''string''])) = ''integer|string''"
    by code_simp
  have c: "card (set [''integer'', ''string'']) \<noteq> 1" by simp
  from t m0 have "\<forall>occ tags.
      occ = filter (\<lambda>f. field_name f = field_name (?r ! 0)) ?all \<and> tags = map field_type occ \<longrightarrow>
        occ \<noteq> [] \<and>
        field_sample (?r ! 0) = field_sample (hd occ) \<and>
        (\<forall>t. set tags = {t} \<longrightarrow> field_type (?r ! 0) = t) \<and>
        (card (set tags) \<noteq> 1 \<longrightarrow> field_type (?r ! 0) = join ''|'' (sort (remdups tags)))"
    by blast
  then have "field_sample (?r ! 0) = field_sample (hd (filter (\<lambda>f. field_name f = ''a'') ?all)) \<and>
      (card (set (map field_type (filter (\<lambda>f. field_name f = ''a'') ?all))) \<noteq> 1 \<longrightarrow>
         field_type (?r ! 0) =
           join ''|'' (sort (remdups (map field_type (filter (\<lambda>f. field_name f = ''a'') ?all)))))"
    unfolding n0 by blast
  then have r0: "field_sample (?r ! 0) = JNum 1 \<and> field_type (?r ! 0) = ''integer|string''"
    unfolding o0 using c j by simp
  from t m2 have "\<forall>occ tags.
      occ = filter (\<lambda>f. field_name f = field_name (?r ! 2)) ?all \<and> tags = map field_type occ \<longrightarrow>
        occ \<noteq> [] \<and>
        field_sample (?r ! 2) = field_sample (hd occ) \<and>
        (\<forall>t. set tags = {t} \<longrightarrow> field_type (?r ! 2) = t) \<and>
        (card (set tags) \<noteq> 1 \<longrightarrow> field_type (?r ! 2) = join ''|'' (sort (remdups tags)))"
    by blast
  then have "\<forall>t. set (map field_type (filter (\<lambda>f. field_name f = ''c'') ?all)) = {t} \<longrightarrow>
      field_type (?r ! 2) = t"
    unfolding n2 by blast
  then have r2: "field_type (?r ! 2) = ''boolean''"
    unfolding o2 by simp
  from names r0 r2 show ?thesis by blast
qed

end
